theory Spec2Isabelle
  imports Complex_Main
begin

section \<open>Values, errors and arrays\<close>

text \<open>
  The arrays of \<^verbatim>\<open>pyembedding.py\<close> hold Python floats. A float is modelled as a finite
  real, one of the two infinities, or not-a-number. Arithmetic on finite values is exact:
  rounding, overflow and underflow of IEEE doubles are not modelled, and the two zeros are
  one value. The special values follow IEEE 754, which is what numpy computes. The theorems
  of the claims below are about indices, masks and comparisons; of the arithmetic on finite
  values they use only \<open>a - a = 0\<close>, \<open>0 + 0 = 0\<close> and \<open>(a - b)\<^sup>2 = (b - a)\<^sup>2\<close>.
\<close>

datatype fval = Fin real | PInf | NInf | NaN

datatype error = AssertionError | ValueError | IndexError | EmbeddingFailure

text \<open>A two-dimensional array is the list of its rows.\<close>

type_synonym 'a matrix = "'a list list"

fun isnan :: "fval \<Rightarrow> bool" where
  "isnan NaN = True"
| "isnan _ = False"

fun isfinite :: "fval \<Rightarrow> bool" where
  "isfinite (Fin a) = True"
| "isfinite _ = False"

text \<open>The comparisons \<^verbatim>\<open>==\<close>, \<^verbatim>\<open><\<close> and \<^verbatim>\<open>>\<close> of floats: false as soon as one side is NaN.\<close>

fun feq :: "fval \<Rightarrow> fval \<Rightarrow> bool" where
  "feq (Fin a) (Fin b) = (a = b)"
| "feq PInf PInf = True"
| "feq NInf NInf = True"
| "feq _ _ = False"

fun fless :: "fval \<Rightarrow> fval \<Rightarrow> bool" where
  "fless (Fin a) (Fin b) = (a < b)"
| "fless (Fin a) PInf = True"
| "fless NInf (Fin b) = True"
| "fless NInf PInf = True"
| "fless _ _ = False"

definition fgt :: "fval \<Rightarrow> fval \<Rightarrow> bool" where
  "fgt a b = fless b a"

text \<open>
  The order numpy sorts and partitions by: \<open>a < b\<close>, or \<open>b\<close> is NaN and \<open>a\<close> is not. NaN
  sorts last.
\<close>

definition sort_less :: "fval \<Rightarrow> fval \<Rightarrow> bool" where
  "sort_less a b = (fless a b \<or> (isnan b \<and> \<not> isnan a))"

text \<open>Arithmetic. An undefined result (\<open>inf - inf\<close>, \<open>0 / 0\<close>, \<open>inf / inf\<close>) is NaN.\<close>

fun fneg :: "fval \<Rightarrow> fval" where
  "fneg (Fin a) = Fin (- a)"
| "fneg PInf = NInf"
| "fneg NInf = PInf"
| "fneg NaN = NaN"

fun fadd :: "fval \<Rightarrow> fval \<Rightarrow> fval" where
  "fadd (Fin a) (Fin b) = Fin (a + b)"
| "fadd NaN _ = NaN"
| "fadd _ NaN = NaN"
| "fadd PInf NInf = NaN"
| "fadd NInf PInf = NaN"
| "fadd PInf _ = PInf"
| "fadd _ PInf = PInf"
| "fadd NInf _ = NInf"
| "fadd _ NInf = NInf"

definition fsub :: "fval \<Rightarrow> fval \<Rightarrow> fval" where
  "fsub a b = fadd a (fneg b)"

text \<open>\<^verbatim>\<open>a ** 2\<close>\<close>

fun fsq :: "fval \<Rightarrow> fval" where
  "fsq (Fin a) = Fin (a * a)"
| "fsq PInf = PInf"
| "fsq NInf = PInf"
| "fsq NaN = NaN"

fun fsqrt :: "fval \<Rightarrow> fval" where
  "fsqrt (Fin a) = (if a < 0 then NaN else Fin (sqrt a))"
| "fsqrt PInf = PInf"
| "fsqrt NInf = NaN"
| "fsqrt NaN = NaN"

fun fabs :: "fval \<Rightarrow> fval" where
  "fabs (Fin a) = Fin \<bar>a\<bar>"
| "fabs PInf = PInf"
| "fabs NInf = PInf"
| "fabs NaN = NaN"

text \<open>
  Division. A finite value divided by zero is an infinity of the dividend's sign (the
  divisor's sign is that of \<open>+0\<close>, the model having one zero); \<open>0 / 0\<close> is NaN.
\<close>

fun fdiv :: "fval \<Rightarrow> fval \<Rightarrow> fval" where
  "fdiv NaN _ = NaN"
| "fdiv _ NaN = NaN"
| "fdiv (Fin a) (Fin b) =
     (if b = 0 then (if a = 0 then NaN else if 0 < a then PInf else NInf) else Fin (a / b))"
| "fdiv (Fin a) _ = Fin 0"
| "fdiv PInf (Fin b) = (if b < 0 then NInf else PInf)"
| "fdiv NInf (Fin b) = (if b < 0 then PInf else NInf)"
| "fdiv _ _ = NaN"

fun flog :: "fval \<Rightarrow> fval" where
  "flog (Fin a) = (if a < 0 then NaN else if a = 0 then NInf else Fin (ln a))"
| "flog PInf = PInf"
| "flog NInf = NaN"
| "flog NaN = NaN"

fun fexp :: "fval \<Rightarrow> fval" where
  "fexp (Fin a) = Fin (exp a)"
| "fexp PInf = PInf"
| "fexp NInf = Fin 0"
| "fexp NaN = NaN"

text \<open>\<^verbatim>\<open>sum\<close> and \<^verbatim>\<open>mean\<close> of a one-dimensional array; the mean of no values is \<open>0 / 0\<close>.\<close>

definition fsum :: "fval list \<Rightarrow> fval" where
  "fsum xs = foldl fadd (Fin 0) xs"

definition fmean :: "fval list \<Rightarrow> fval" where
  "fmean xs = fdiv (fsum xs) (Fin (real (length xs)))"

text \<open>The first error of a list of results, or all their values.\<close>

fun collect :: "(error + 'a) list \<Rightarrow> error + 'a list" where
  "collect [] = Inr []"
| "collect (r # rs) =
     (case r of
        Inl e \<Rightarrow> Inl e
      | Inr v \<Rightarrow> (case collect rs of Inl e \<Rightarrow> Inl e | Inr vs \<Rightarrow> Inr (v # vs)))"

section \<open>Lagged matrices\<close>

text \<open>\<^verbatim>\<open>x[:k]\<close>: a negative \<open>k\<close> counts from the end.\<close>

definition py_take :: "'a list \<Rightarrow> int \<Rightarrow> 'a list" where
  "py_take xs k = (if k < 0 then take (nat (int (length xs) + k)) xs else take (nat k) xs)"

text \<open>
  Assigning a one-dimensional array to a slice of \<open>n\<close> places: the lengths agree, or the
  array has one element, which is broadcast; anything else is numpy's ValueError
  (could not broadcast input array).
\<close>

definition assign_slice :: "nat \<Rightarrow> 'a list \<Rightarrow> error + 'a list" where
  "assign_slice n src =
     (if length src = n then Inr src
      else if length src = 1 then Inr (replicate n (hd src))
      else Inl ValueError)"

text \<open>
  One iteration of the loop of \<^verbatim>\<open>make_partial_embedding\<close>, as the column it leaves:
  \<^verbatim>\<open>assert tau >= 0; X[tau:,i] = x[:(N-tau)]\<close> on a column that holds NaN. The slice
  \<^verbatim>\<open>X[tau:,i]\<close> has \<open>N - tau\<close> places, none when \<open>tau\<close> exceeds \<open>N\<close>.
\<close>

definition lag_column :: "fval list \<Rightarrow> int \<Rightarrow> error + fval list" where
  "lag_column x tau =
     (let N = length x
      in if tau < 0 then Inl AssertionError
         else (case assign_slice (N - nat tau) (py_take x (int N - tau)) of
                 Inl e \<Rightarrow> Inl e
               | Inr ys \<Rightarrow> Inr (replicate (min (nat tau) N) NaN @ ys)))"

text \<open>The array of \<open>N\<close> rows whose columns are the given lists.\<close>

definition from_columns :: "nat \<Rightarrow> 'a list list \<Rightarrow> 'a matrix" where
  "from_columns N cols = map (\<lambda>r. map (\<lambda>c. c ! r) cols) [0..<N]"

text \<open>\<^verbatim>\<open>numpy.max\<close> of a non-empty one-dimensional array of integers.\<close>

definition list_max :: "int list \<Rightarrow> int" where
  "list_max ts = foldl max (hd ts) (tl ts)"

text \<open>
  \<^verbatim>\<open>make_partial_embedding(x, taus, preserve_indices)\<close>. The columns are written in the
  order of \<open>taus\<close>, and the first failing iteration ends the call. \<^verbatim>\<open>numpy.max\<close> of an
  empty array is a ValueError.
\<close>

definition make_partial_embedding ::
    "fval list \<Rightarrow> int list \<Rightarrow> bool \<Rightarrow> error + fval matrix" where
  "make_partial_embedding x taus preserve_indices =
     (case collect (map (lag_column x) taus) of
        Inl e \<Rightarrow> Inl e
      | Inr cols \<Rightarrow>
          let X = from_columns (length x) cols
          in if preserve_indices then Inr X
             else if taus = [] then Inl ValueError
             else Inr (drop (nat (list_max taus)) X))"

text \<open>
  \<^verbatim>\<open>make_full_embedding(x, E, tau, preserve_indices)\<close>; \<^verbatim>\<open>numpy.arange(0, E*tau, tau)\<close>
  is \<open>0, tau, \<dots>, (E - 1) * tau\<close>.
\<close>

definition make_full_embedding ::
    "fval list \<Rightarrow> int \<Rightarrow> int \<Rightarrow> bool \<Rightarrow> error + fval matrix" where
  "make_full_embedding x E tau preserve_indices =
     (if \<not> 0 < E then Inl AssertionError
      else if \<not> 0 < tau then Inl AssertionError
      else make_partial_embedding x (map (\<lambda>j. int j * tau) [0..<nat E]) preserve_indices)"

section \<open>Distances\<close>

text \<open>
  One entry of \<^verbatim>\<open>((B - A[i:(i+1),:].repeat(B.shape[0], axis=0))**2).sum(axis=1)\<close>, for
  the row \<open>a\<close> of \<open>A\<close> and a row \<open>b\<close> of \<open>B\<close>. Rows of unequal length are subtracted
  when one of them has a single element (numpy broadcasts it); otherwise the
  subtraction is a ValueError.
\<close>

definition row_sqdist :: "fval list \<Rightarrow> fval list \<Rightarrow> error + fval" where
  "row_sqdist a b =
     (if length a = length b then Inr (fsum (map (\<lambda>(bc, ac). fsq (fsub bc ac)) (zip b a)))
      else if length a = 1 then Inr (fsum (map (\<lambda>bc. fsq (fsub bc (hd a))) b))
      else if length b = 1 then Inr (fsum (map (\<lambda>ac. fsq (fsub (hd b) ac)) a))
      else Inl ValueError)"

text \<open>
  \<^verbatim>\<open>squared_euclidean_distance(A, B)\<close>: row \<open>i\<close> of the result is computed from row \<open>i\<close>
  of \<open>A\<close> and all rows of \<open>B\<close>. (An array with no rows has no column count in this
  model, so the shapes of \<open>A\<close> and \<open>B\<close> are compared row by row.)
\<close>

definition squared_euclidean_distance :: "fval matrix \<Rightarrow> fval matrix \<Rightarrow> error + fval matrix" where
  "squared_euclidean_distance A B =
     collect (map (\<lambda>a. collect (map (\<lambda>b. row_sqdist a b) B)) A)"

definition euclidean_distance :: "fval matrix \<Rightarrow> fval matrix \<Rightarrow> error + fval matrix" where
  "euclidean_distance A B =
     (case squared_euclidean_distance A B of
        Inl e \<Rightarrow> Inl e
      | Inr D \<Rightarrow> Inr (map (map fsqrt) D))"

section \<open>Masking a diagonal\<close>

text \<open>
  \<^verbatim>\<open>assign_diagonal(X, offset, val)\<close>: for every row \<open>i\<close>, when \<open>i + offset\<close> is a column
  index, the entry at \<open>(i, i + offset)\<close> becomes \<open>val\<close>. The source mutates \<open>X\<close> in
  place; the model returns the new array. Each iteration touches its own row only.
\<close>

definition assign_diagonal :: "'a matrix \<Rightarrow> int \<Rightarrow> 'a \<Rightarrow> 'a matrix" where
  "assign_diagonal X offset val =
     map (\<lambda>i. let row = X ! i; j = int i + offset
               in if 0 \<le> j \<and> j < int (length row) then row[nat j := val] else row)
         [0..<length X]"

text \<open>
  The body of the masking loop of \<^verbatim>\<open>nichkawde_embedding\<close>: the band at \<open>offset\<close>, and
  for a positive offset the band at \<open>- offset\<close> as well. The source passes NaN for
  \<open>val\<close>.
\<close>

definition mask_offset :: "'a matrix \<Rightarrow> int \<Rightarrow> 'a \<Rightarrow> 'a matrix" where
  "mask_offset D offset val =
     (let D1 = assign_diagonal D offset val
      in if offset > 0 then assign_diagonal D1 (- offset) val else D1)"

section \<open>Nearest neighbours\<close>

text \<open>\<^verbatim>\<open>D[:,i]\<close>: an IndexError when the array has no column \<open>i\<close>.\<close>

definition column :: "'a matrix \<Rightarrow> nat \<Rightarrow> error + 'a list" where
  "column D i =
     (if list_all (\<lambda>row. i < length row) D then Inr (map (\<lambda>row. row ! i) D)
      else Inl IndexError)"

text \<open>\<^verbatim>\<open>xs[idxs]\<close> for an array of indices: an IndexError when one is out of range.\<close>

definition index_list :: "'a list \<Rightarrow> nat list \<Rightarrow> error + 'a list" where
  "index_list xs idxs =
     (if list_all (\<lambda>j. j < length xs) idxs then Inr (map (\<lambda>j. xs ! j) idxs)
      else Inl IndexError)"

text \<open>
  \<^verbatim>\<open>numpy.argpartition(v, range(k))\<close>. For the positions \<open>0, 1, \<dots>, k - 1\<close> in turn numpy
  runs its selection for small ranks: it scans the places from the current one to the
  end for the first smallest value (in the sorting order, NaN last) and swaps that place
  with the current one. \<open>scan_min\<close> is the scan: \<open>k\<close> is the place being looked at,
  \<open>minidx\<close> and \<open>minval\<close> the best place so far and its value.
\<close>

fun scan_min :: "fval list \<Rightarrow> nat list \<Rightarrow> nat \<Rightarrow> nat \<Rightarrow> fval \<Rightarrow> nat" where
  "scan_min v [] k minidx minval = minidx"
| "scan_min v (j # js) k minidx minval =
     (if sort_less (v ! j) minval then scan_min v js (Suc k) k (v ! j)
      else scan_min v js (Suc k) minidx minval)"

fun dumb_select :: "fval list \<Rightarrow> nat list \<Rightarrow> nat \<Rightarrow> nat list" where
  "dumb_select v idx 0 = idx"
| "dumb_select v [] (Suc k) = []"
| "dumb_select v (j # js) (Suc k) =
     (let m = scan_min v js 1 0 (v ! j);
          ys = (j # js)[0 := (j # js) ! m, m := j]
      in hd ys # dumb_select v (tl ys) k)"

text \<open>A rank outside the array is numpy's ValueError (kth out of bounds).\<close>

definition argpartition :: "fval list \<Rightarrow> nat \<Rightarrow> error + nat list" where
  "argpartition v k =
     (if k \<le> length v then Inr (dumb_select v [0..<length v] k) else Inl ValueError)"

text \<open>
  One iteration of the loop of \<^verbatim>\<open>find_neighbors\<close>: the row \<open>N[i,:]\<close> is selected from
  the column \<^verbatim>\<open>D[:,i]\<close>, the row \<open>DN[i,:]\<close> is read from the row \<^verbatim>\<open>D[i, N[i,:]]\<close>.
\<close>

definition neighbors_row :: "fval matrix \<Rightarrow> nat \<Rightarrow> nat \<Rightarrow> error + (nat list \<times> fval list)" where
  "neighbors_row D n_neighbors i =
     (case column D i of
        Inl e \<Rightarrow> Inl e
      | Inr col \<Rightarrow>
          (case argpartition col n_neighbors of
             Inl e \<Rightarrow> Inl e
           | Inr part \<Rightarrow>
               let Ni = take n_neighbors part
               in (case index_list (D ! i) Ni of
                     Inl e \<Rightarrow> Inl e
                   | Inr DNi \<Rightarrow> Inr (Ni, DNi))))"

definition find_neighbors :: "fval matrix \<Rightarrow> nat \<Rightarrow> error + (nat matrix \<times> fval matrix)" where
  "find_neighbors D n_neighbors =
     (case collect (map (neighbors_row D n_neighbors) [0..<length D]) of
        Inl e \<Rightarrow> Inl e
      | Inr rs \<Rightarrow> Inr (map fst rs, map snd rs))"

section \<open>The greedy choice of lags\<close>

text \<open>\<^verbatim>\<open>X_full[:,taus]\<close>: the columns named by \<open>taus\<close>, in that order.\<close>

definition select_columns :: "'a matrix \<Rightarrow> nat list \<Rightarrow> error + 'a matrix" where
  "select_columns X taus =
     (if list_all (\<lambda>row. list_all (\<lambda>t. t < length row) taus) X
      then Inr (map (\<lambda>row. map (\<lambda>t. row ! t) taus) X)
      else Inl IndexError)"

text \<open>\<^verbatim>\<open>D[D == 0.0] = float('inf')\<close>\<close>

definition zeros_to_inf :: "fval matrix \<Rightarrow> fval matrix" where
  "zeros_to_inf D = map (map (\<lambda>d. if feq d (Fin 0) then PInf else d)) D"

text \<open>The masking loop over \<^verbatim>\<open>range(neighbor_offset_min)\<close>.\<close>

definition theiler_mask :: "fval matrix \<Rightarrow> int \<Rightarrow> fval matrix" where
  "theiler_mask D neighbor_offset_min =
     foldl (\<lambda>D' offset. mask_offset D' (int offset) NaN) D [0..<nat neighbor_offset_min]"

text \<open>The distance matrix of an iteration, as \<^verbatim>\<open>find_neighbors\<close> receives it.\<close>

definition masked_distance :: "fval matrix \<Rightarrow> int \<Rightarrow> error + fval matrix" where
  "masked_distance X neighbor_offset_min =
     (case euclidean_distance X X of
        Inl e \<Rightarrow> Inl e
      | Inr D \<Rightarrow> Inr (theiler_mask (zeros_to_inf D) neighbor_offset_min))"

text \<open>
  The derivatives of the candidate lag \<open>tau_next\<close> that are kept (not NaN and not
  zero): \<open>N0\<close> and \<open>DN0\<close> are \<^verbatim>\<open>N[:,0]\<close> and \<^verbatim>\<open>DN[:,0]\<close>.
\<close>

definition candidate_derivs ::
    "fval matrix \<Rightarrow> nat list \<Rightarrow> fval list \<Rightarrow> nat \<Rightarrow> error + fval list" where
  "candidate_derivs X_full N0 DN0 tau_next =
     (case column X_full tau_next of
        Inl e \<Rightarrow> Inl e
      | Inr Xnext \<Rightarrow>
          (case index_list Xnext N0 of
             Inl e \<Rightarrow> Inl e
           | Inr Xnext_N \<Rightarrow>
               let Dnext = map (\<lambda>(a, b). fabs (fsub a b)) (zip Xnext Xnext_N);
                   deriv = map (\<lambda>(a, b). fdiv a b) (zip Dnext DN0)
               in Inr (filter (\<lambda>d. \<not> isnan d \<and> \<not> feq d (Fin 0)) deriv)))"

text \<open>The score of the candidate: \<^verbatim>\<open>numpy.exp(numpy.log(deriv).mean())\<close>.\<close>

definition geo_mean_deriv :: "fval matrix \<Rightarrow> nat list \<Rightarrow> fval list \<Rightarrow> nat \<Rightarrow> error + fval" where
  "geo_mean_deriv X_full N0 DN0 tau_next =
     (case candidate_derivs X_full N0 DN0 tau_next of
        Inl e \<Rightarrow> Inl e
      | Inr deriv \<Rightarrow> Inr (fexp (fmean (map flog deriv))))"

text \<open>
  The loop over the candidate lags, with the state \<open>(max_deriv, max_deriv_tau)\<close>; None is
  Python's \<^verbatim>\<open>None\<close>.
\<close>

fun scan_lags ::
    "fval matrix \<Rightarrow> nat list \<Rightarrow> fval list \<Rightarrow> nat list \<Rightarrow> fval \<times> nat option
      \<Rightarrow> error + (fval \<times> nat option)" where
  "scan_lags X_full N0 DN0 [] best = Inr best"
| "scan_lags X_full N0 DN0 (tau_next # rest) (max_deriv, max_deriv_tau) =
     (case geo_mean_deriv X_full N0 DN0 tau_next of
        Inl e \<Rightarrow> Inl e
      | Inr g \<Rightarrow>
          scan_lags X_full N0 DN0 rest
            (if fgt g max_deriv then (g, Some tau_next) else (max_deriv, max_deriv_tau)))"

text \<open>
  The neighbours of an iteration: \<^verbatim>\<open>N[:,0]\<close> and \<^verbatim>\<open>DN[:,0]\<close> for the lags chosen so
  far.
\<close>

definition step_neighbors ::
    "fval matrix \<Rightarrow> int \<Rightarrow> nat list \<Rightarrow> error + (nat list \<times> fval list)" where
  "step_neighbors X_full neighbor_offset_min taus =
     (case select_columns X_full taus of
        Inl e \<Rightarrow> Inl e
      | Inr X \<Rightarrow>
          (case masked_distance X neighbor_offset_min of
             Inl e \<Rightarrow> Inl e
           | Inr D \<Rightarrow>
               (case find_neighbors D 1 of
                  Inl e \<Rightarrow> Inl e
                | Inr (N, DN) \<Rightarrow> Inr (map (\<lambda>r. r ! 0) N, map (\<lambda>r. r ! 0) DN))))"

text \<open>
  The body of the \<^verbatim>\<open>while\<close> loop: the lag to append, or the failure
  (could not calculate max derivative). \<^verbatim>\<open>range(taus[-1] + 1, E_max)\<close> lists the
  candidates.
\<close>

definition nichkawde_step :: "fval matrix \<Rightarrow> int \<Rightarrow> int \<Rightarrow> nat list \<Rightarrow> error + nat" where
  "nichkawde_step X_full E_max neighbor_offset_min taus =
     (case step_neighbors X_full neighbor_offset_min taus of
        Inl e \<Rightarrow> Inl e
      | Inr (N0, DN0) \<Rightarrow>
          (case scan_lags X_full N0 DN0 [last taus + 1..<nat E_max] (Fin 0, None) of
             Inl e \<Rightarrow> Inl e
           | Inr (max_deriv, None) \<Rightarrow> Inl EmbeddingFailure
           | Inr (max_deriv, Some max_deriv_tau) \<Rightarrow> Inr max_deriv_tau))"

text \<open>A lag that the candidate loop returns was a candidate, unless it was there at the start.\<close>

lemma scan_lags_Some:
  "scan_lags X_full N0 DN0 ts (m, mt) = Inr (g, Some t) \<Longrightarrow> t \<in> set ts \<or> mt = Some t"
proof (induction ts arbitrary: m mt)
  case Nil
  then show ?case by simp
next
  case (Cons a ts)
  then show ?case
    by (fastforce split: sum.splits if_splits)
qed

lemma nichkawde_step_range:
  assumes "nichkawde_step X_full E_max neighbor_offset_min taus = Inr t"
  shows "last taus < t \<and> int t < E_max"
proof -
  from assms obtain N0 DN0 g where
    "scan_lags X_full N0 DN0 [last taus + 1..<nat E_max] (Fin 0, None) = Inr (g, Some t)"
    by (auto simp: nichkawde_step_def split: sum.splits prod.splits option.splits)
  then have "t \<in> set [last taus + 1..<nat E_max]"
    using scan_lags_Some by blast
  then show ?thesis by auto
qed

text \<open>
  The \<^verbatim>\<open>while\<close> loop. Beside the lags the model returns the number of iterations it
  ran, which the source does not keep. \<^verbatim>\<open>taus[-1]\<close> of an empty tuple is an IndexError;
  the loop starts from \<open>(0,)\<close>. (The source also prints the lags at the start of each
  iteration.)
\<close>

function nichkawde_loop ::
    "fval matrix \<Rightarrow> int \<Rightarrow> int \<Rightarrow> nat list \<Rightarrow> nat \<Rightarrow> error + (nat list \<times> nat)" where
  "nichkawde_loop X_full E_max neighbor_offset_min taus n =
     (if taus = [] then Inl IndexError
      else if int (last taus) < E_max - 1 then
        (case nichkawde_step X_full E_max neighbor_offset_min taus of
           Inl e \<Rightarrow> Inl e
         | Inr max_deriv_tau \<Rightarrow>
             nichkawde_loop X_full E_max neighbor_offset_min (taus @ [max_deriv_tau]) (Suc n))
      else Inr (taus, n))"
  by pat_completeness auto
termination
proof (relation "measure (\<lambda>(X_full, E_max, neighbor_offset_min, taus, n).
                    nat (E_max - 1 - int (last taus)))")
  show "wf (measure (\<lambda>(X_full, E_max, neighbor_offset_min, taus, n).
             nat (E_max - 1 - int (last taus))))"
    by simp
next
  fix X_full :: "fval matrix" and E_max neighbor_offset_min :: int
    and taus :: "nat list" and n t :: nat
  assume "int (last taus) < E_max - 1"
    and "nichkawde_step X_full E_max neighbor_offset_min taus = Inr t"
  then have "last taus < t \<and> int t < E_max"
    using nichkawde_step_range by blast
  then show "((X_full, E_max, neighbor_offset_min, taus @ [t], Suc n),
              (X_full, E_max, neighbor_offset_min, taus, n))
            \<in> measure (\<lambda>(X_full, E_max, neighbor_offset_min, taus, n).
                 nat (E_max - 1 - int (last taus)))"
    by simp
qed

declare nichkawde_loop.simps [simp del]

text \<open>\<^verbatim>\<open>nichkawde_embedding(x, E_max, neighbor_offset_min, preserve_indices)\<close>\<close>

definition nichkawde_embedding ::
    "fval list \<Rightarrow> int \<Rightarrow> int \<Rightarrow> bool \<Rightarrow> error + (nat list \<times> fval matrix)" where
  "nichkawde_embedding x E_max neighbor_offset_min preserve_indices =
     (case make_full_embedding x E_max 1 preserve_indices of
        Inl e \<Rightarrow> Inl e
      | Inr X_full \<Rightarrow>
          (case nichkawde_loop X_full E_max neighbor_offset_min [0] 0 of
             Inl e \<Rightarrow> Inl e
           | Inr (taus, n) \<Rightarrow>
               (case select_columns X_full taus of
                  Inl e \<Rightarrow> Inl e
                | Inr X \<Rightarrow> Inr (taus, X))))"

text \<open>
  The states of the \<^verbatim>\<open>while\<close> loop: \<open>reached X_full E_max neighbor_offset_min taus n\<close>
  says that the loop, started from \<open>(0,)\<close>, holds the lags \<open>taus\<close> after \<open>n\<close> iterations.
\<close>

inductive reached :: "fval matrix \<Rightarrow> int \<Rightarrow> int \<Rightarrow> nat list \<Rightarrow> nat \<Rightarrow> bool"
  for X_full :: "fval matrix" and E_max :: int and neighbor_offset_min :: int where
  start: "reached X_full E_max neighbor_offset_min [0] 0"
| iterate: "reached X_full E_max neighbor_offset_min taus n \<Longrightarrow>
      int (last taus) < E_max - 1 \<Longrightarrow>
      nichkawde_step X_full E_max neighbor_offset_min taus = Inr max_deriv_tau \<Longrightarrow>
      reached X_full E_max neighbor_offset_min (taus @ [max_deriv_tau]) (Suc n)"

section \<open>Properties of masking\<close>

lemma length_assign_diagonal [simp]: "length (assign_diagonal X offset val) = length X"
  by (simp add: assign_diagonal_def)

lemma length_row_assign_diagonal [simp]:
  "i < length X \<Longrightarrow> length (assign_diagonal X offset val ! i) = length (X ! i)"
  by (simp add: assign_diagonal_def Let_def)

lemma assign_diagonal_entry:
  assumes "i < length X" and "j < length (X ! i)"
  shows "assign_diagonal X offset val ! i ! j =
           (if int j = int i + offset then val else X ! i ! j)"
proof (cases "int j = int i + offset")
  case True
  then have "nat (int i + offset) = j" by simp
  with True assms show ?thesis
    by (simp add: assign_diagonal_def Let_def)
next
  case False
  then have "nat (int i + offset) \<noteq> j \<or> int i + offset < 0" by linarith
  with False assms show ?thesis
    by (auto simp: assign_diagonal_def Let_def)
qed

lemma length_mask_offset [simp]: "length (mask_offset D offset val) = length D"
  by (simp add: mask_offset_def Let_def)

lemma length_row_mask_offset [simp]:
  "i < length D \<Longrightarrow> length (mask_offset D offset val ! i) = length (D ! i)"
  by (simp add: mask_offset_def Let_def)

lemma mask_offset_entry:
  assumes "i < length D" and "j < length (D ! i)"
  shows "mask_offset D offset val ! i ! j =
           (if int j = int i + offset \<or> (0 < offset \<and> int j = int i - offset)
            then val else D ! i ! j)"
  using assms by (auto simp: mask_offset_def Let_def assign_diagonal_entry)

text \<open>
  Claim C2, as amended. One call \<^verbatim>\<open>assign_diagonal(D, offset, v)\<close> sets the entries
  \<open>(i, i + offset)\<close>, wherever that column exists, to the value and leaves every other entry
  unchanged, for any offset: for offset 0 these are the diagonal entries, for a positive
  offset the band above the diagonal only. The band at \<open>- offset\<close> is set by a second
  call with the offset \<open>- offset\<close>; after the two calls exactly the entries \<open>(i, i + offset)\<close>
  and \<open>(i, i - offset)\<close> hold the value and every entry outside the two bands is unchanged.
  The shape of the array is kept. The counterexample is the array of the docstring: after
  the call with offset 1 the band below the diagonal still holds 3.
\<close>

theorem assign_diagonal_frame:
  assumes "i < length D" and "j < length (D ! i)"
  shows "assign_diagonal D 0 v ! i ! j = (if j = i then v else D ! i ! j)
       \<and> assign_diagonal D offset v ! i ! j = (if int j = int i + offset then v else D ! i ! j)
       \<and> assign_diagonal (assign_diagonal D offset v) (- offset) v ! i ! j =
           (if int j = int i + offset \<or> int j = int i - offset then v else D ! i ! j)
       \<and> length (assign_diagonal D offset v) = length D
       \<and> length (assign_diagonal D offset v ! i) = length (D ! i)"
  using assms by (auto simp: assign_diagonal_entry)

theorem assign_diagonal_frame_witness:
  "assign_diagonal [[PInf, Fin 3, Fin 12], [Fin 3, PInf, Fin 3], [Fin 12, Fin 3, PInf]] 1 PInf ! 1 ! 2
     = PInf
 \<and> assign_diagonal [[PInf, Fin 3, Fin 12], [Fin 3, PInf, Fin 3], [Fin 12, Fin 3, PInf]] 1 PInf ! 1 ! 0
     = Fin 3
 \<and> assign_diagonal
       (assign_diagonal [[PInf, Fin 3, Fin 12], [Fin 3, PInf, Fin 3], [Fin 12, Fin 3, PInf]] 1 PInf)
       (- 1) PInf ! 1 ! 0 = PInf
 \<and> assign_diagonal [[PInf, Fin 3, Fin 12], [Fin 3, PInf, Fin 3], [Fin 12, Fin 3, PInf]] 0 NaN ! 1 ! 1
     = NaN"
proof -
  have i: "1 < length [[PInf, Fin 3, Fin 12], [Fin 3, PInf, Fin 3], [Fin 12, Fin 3, PInf]]"
    by simp
  have j0: "0 < length ([[PInf, Fin 3, Fin 12], [Fin 3, PInf, Fin 3], [Fin 12, Fin 3, PInf]] ! 1)"
    and j1: "1 < length ([[PInf, Fin 3, Fin 12], [Fin 3, PInf, Fin 3], [Fin 12, Fin 3, PInf]] ! 1)"
    and j2: "2 < length ([[PInf, Fin 3, Fin 12], [Fin 3, PInf, Fin 3], [Fin 12, Fin 3, PInf]] ! 1)"
    by simp_all
  show ?thesis
    using assign_diagonal_frame [OF i j0, of PInf 1] assign_diagonal_frame [OF i j2, of PInf 1]
      assign_diagonal_frame [OF i j1, of NaN 0]
    by simp
qed

theorem assign_diagonal_one_band_counterexample:
  "assign_diagonal [[PInf, Fin 3, Fin 12, Fin 27], [Fin 3, PInf, Fin 3, Fin 12],
                    [Fin 12, Fin 3, PInf, Fin 3], [Fin 27, Fin 12, Fin 3, PInf]] 1 PInf
     = [[PInf, PInf, Fin 12, Fin 27], [Fin 3, PInf, PInf, Fin 12],
        [Fin 12, Fin 3, PInf, PInf], [Fin 27, Fin 12, Fin 3, PInf]]
 \<and> Fin 3 \<noteq> PInf"
  by (simp add: assign_diagonal_def upt_rec)

section \<open>Results that are lists of results\<close>

lemma collect_map_Inr [simp]: "collect (map Inr vs) = Inr vs"
  by (induction vs) auto

lemma collect_Inr_D: "collect rs = Inr vs \<Longrightarrow> rs = map Inr vs"
proof (induction rs arbitrary: vs)
  case Nil
  then show ?case by simp
next
  case (Cons r rs)
  then show ?case by (auto split: sum.splits)
qed

lemma collect_Inr_iff: "collect rs = Inr vs \<longleftrightarrow> rs = map Inr vs"
  using collect_Inr_D by auto

lemma collect_map_ok:
  assumes "\<And>x. x \<in> set xs \<Longrightarrow> f x = Inr (g x)"
  shows "collect (map f xs) = Inr (map g xs)"
proof -
  have "map f xs = map Inr (map g xs)" using assms by simp
  then show ?thesis by (simp only: collect_map_Inr)
qed

section \<open>Properties of the squared distance\<close>

lemma fsq_fsub_commute: "fsq (fsub a b) = fsq (fsub b a)"
  by (cases a; cases b) (simp_all add: fsub_def algebra_simps)

lemma fsum_Fin: "foldl fadd (Fin s) (map Fin rs) = Fin (s + sum_list rs)"
  by (induction rs arbitrary: s) (simp_all add: algebra_simps)

lemma row_sqdist_eq_length:
  assumes "length a = length b"
  shows "row_sqdist a b = Inr (fsum (map (\<lambda>j. fsq (fsub (a ! j) (b ! j))) [0..<length a]))"
proof -
  have "map (\<lambda>(bc, ac). fsq (fsub bc ac)) (zip b a) = map (\<lambda>j. fsq (fsub (a ! j) (b ! j))) [0..<length a]"
  proof (rule nth_equalityI)
    show "length (map (\<lambda>(bc, ac). fsq (fsub bc ac)) (zip b a)) =
          length (map (\<lambda>j. fsq (fsub (a ! j) (b ! j))) [0..<length a])"
      using assms by simp
  next
    fix i assume "i < length (map (\<lambda>(bc, ac). fsq (fsub bc ac)) (zip b a))"
    then have "i < length a" and "i < length b" by simp_all
    then show "map (\<lambda>(bc, ac). fsq (fsub bc ac)) (zip b a) ! i =
               map (\<lambda>j. fsq (fsub (a ! j) (b ! j))) [0..<length a] ! i"
      by (simp add: fsq_fsub_commute [of "b ! i" "a ! i"])
  qed
  with assms show ?thesis by (simp add: row_sqdist_def)
qed

lemma squared_euclidean_distance_rect:
  assumes "\<forall>a\<in>set A. length a = c" and "\<forall>b\<in>set B. length b = c"
  shows "squared_euclidean_distance A B =
           Inr (map (\<lambda>a. map (\<lambda>b. fsum (map (\<lambda>j. fsq (fsub (a ! j) (b ! j))) [0..<c])) B) A)"
proof -
  have row: "collect (map (row_sqdist a) B) =
               Inr (map (\<lambda>b. fsum (map (\<lambda>j. fsq (fsub (a ! j) (b ! j))) [0..<c])) B)"
    if "a \<in> set A" for a
  proof (rule collect_map_ok)
    fix b assume "b \<in> set B"
    with that assms have "length a = length b" and "length a = c" by auto
    then show "row_sqdist a b = Inr (fsum (map (\<lambda>j. fsq (fsub (a ! j) (b ! j))) [0..<c]))"
      using row_sqdist_eq_length [of a b] by simp
  qed
  show ?thesis
    unfolding squared_euclidean_distance_def
    by (rule collect_map_ok) (rule row)
qed

lemma sqdist_self_finite:
  assumes "list_all isfinite a"
  shows "fsum (map (\<lambda>j. fsq (fsub (a ! j) (a ! j))) [0..<length a]) = Fin 0"
proof -
  have "fsq (fsub v v) = Fin 0" if "isfinite v" for v
    using that by (cases v) (simp_all add: fsub_def)
  then have "map (\<lambda>j. fsq (fsub (a ! j) (a ! j))) [0..<length a] = map Fin (replicate (length a) 0)"
    using assms by (intro nth_equalityI) (simp_all add: list_all_length)
  then show ?thesis
    using fsum_Fin [of 0 "replicate (length a) 0"] by (simp add: fsum_def sum_list_replicate)
qed

lemma sqdist_sym:
  "fsum (map (\<lambda>j. fsq (fsub (a ! j) (b ! j))) js) = fsum (map (\<lambda>j. fsq (fsub (b ! j) (a ! j))) js)"
proof -
  have "(\<lambda>j. fsq (fsub (a ! j) (b ! j))) = (\<lambda>j. fsq (fsub (b ! j) (a ! j)))"
    by (rule ext) (rule fsq_fsub_commute)
  then show ?thesis by (rule arg_cong)
qed

text \<open>
  Claim C8, as amended. For arrays \<open>A\<close> and \<open>B\<close> of the same column count \<open>c\<close> the call
  returns the array whose entry \<open>(i, k)\<close> is the sum over the columns \<open>j\<close> of
  \<open>(A[i,j] - B[k,j])\<^sup>2\<close>. The result for \<open>(A, A)\<close> has the same value at \<open>(i, k)\<close> and
  \<open>(k, i)\<close> (both NaN where one is), and its diagonal entry is zero at every row of \<open>A\<close> that
  holds finite values only. A row with a NaN or an infinity has a NaN on the diagonal, as
  the counterexample shows on the lagged matrix of the series \<open>1, 2\<close>.
\<close>

theorem squared_distance_entries:
  assumes "\<forall>a\<in>set A. length a = c" and "\<forall>b\<in>set B. length b = c"
  shows "(\<exists>D. squared_euclidean_distance A B = Inr D \<and> length D = length A
            \<and> (\<forall>i<length A. length (D ! i) = length B
                 \<and> (\<forall>k<length B.
                      D ! i ! k = fsum (map (\<lambda>j. fsq (fsub (A ! i ! j) (B ! k ! j))) [0..<c]))))
       \<and> (\<exists>D. squared_euclidean_distance A A = Inr D
            \<and> (\<forall>i<length A. \<forall>k<length A. D ! i ! k = D ! k ! i)
            \<and> (\<forall>i<length A. list_all isfinite (A ! i) \<longrightarrow> D ! i ! i = Fin 0))"
proof (intro conjI)
  show "\<exists>D. squared_euclidean_distance A B = Inr D \<and> length D = length A
            \<and> (\<forall>i<length A. length (D ! i) = length B
                 \<and> (\<forall>k<length B.
                      D ! i ! k = fsum (map (\<lambda>j. fsq (fsub (A ! i ! j) (B ! k ! j))) [0..<c])))"
    using squared_euclidean_distance_rect [OF assms] by simp
next
  have len: "length (A ! i) = c" if "i < length A" for i
    using that assms(1) by simp
  show "\<exists>D. squared_euclidean_distance A A = Inr D
            \<and> (\<forall>i<length A. \<forall>k<length A. D ! i ! k = D ! k ! i)
            \<and> (\<forall>i<length A. list_all isfinite (A ! i) \<longrightarrow> D ! i ! i = Fin 0)"
  proof (intro exI conjI allI impI)
    show "squared_euclidean_distance A A =
            Inr (map (\<lambda>a. map (\<lambda>b. fsum (map (\<lambda>j. fsq (fsub (a ! j) (b ! j))) [0..<c])) A) A)"
      by (rule squared_euclidean_distance_rect [OF assms(1) assms(1)])
  next
    fix i k assume "i < length A" and "k < length A"
    then show "map (\<lambda>a. map (\<lambda>b. fsum (map (\<lambda>j. fsq (fsub (a ! j) (b ! j))) [0..<c])) A) A ! i ! k =
               map (\<lambda>a. map (\<lambda>b. fsum (map (\<lambda>j. fsq (fsub (a ! j) (b ! j))) [0..<c])) A) A ! k ! i"
      by (simp add: sqdist_sym [of "A ! i" "A ! k"])
  next
    fix i assume "i < length A" and "list_all isfinite (A ! i)"
    then show "map (\<lambda>a. map (\<lambda>b. fsum (map (\<lambda>j. fsq (fsub (a ! j) (b ! j))) [0..<c])) A) A ! i ! i = Fin 0"
      using sqdist_self_finite [of "A ! i"] len [of i] by simp
  qed
qed

theorem squared_distance_entries_witness:
  "squared_euclidean_distance [[Fin 0, Fin 1], [Fin 2, Fin 4]] [[Fin 1, Fin 1]]
     = Inr [[Fin 1], [Fin 10]]
 \<and> squared_euclidean_distance [[Fin 0, Fin 1], [Fin 2, Fin 4]] [[Fin 0, Fin 1], [Fin 2, Fin 4]]
     = Inr [[Fin 0, Fin 13], [Fin 13, Fin 0]]"
proof -
  have hA: "\<forall>a\<in>set [[Fin 0, Fin 1], [Fin 2, Fin 4]]. length a = 2" by simp
  have hB: "\<forall>b\<in>set [[Fin 1, Fin 1]]. length b = 2" by simp
  show ?thesis
    using squared_distance_entries [OF hA hB]
    by (simp add: squared_euclidean_distance_def row_sqdist_def fsum_def fsub_def)
qed

theorem squared_distance_diagonal_counterexample:
  "make_full_embedding [Fin 1, Fin 2] 2 1 True = Inr [[Fin 1, NaN], [Fin 2, Fin 1]]
 \<and> squared_euclidean_distance [[Fin 1, NaN], [Fin 2, Fin 1]] [[Fin 1, NaN], [Fin 2, Fin 1]]
     = Inr [[NaN, NaN], [NaN, Fin 0]]
 \<and> \<not> feq NaN (Fin 0)"
  by (simp add: make_full_embedding_def make_partial_embedding_def lag_column_def
      assign_slice_def py_take_def from_columns_def upt_rec
      squared_euclidean_distance_def row_sqdist_def fsum_def fsub_def)

section \<open>Properties of the lagged matrix\<close>

text \<open>
  For lags between 0 and the length \<open>N\<close> of the series the call returns what its docstring
  says: with \<open>preserve_indices\<close>, \<open>N\<close> rows whose entry \<open>(i, j)\<close> is \<open>x[i - taus[j]]\<close> from
  row \<open>taus[j]\<close> on and NaN above it; without, the same rows less the first
  \<open>max(taus)\<close>, whose entries are all entries of \<open>x\<close>. A lag \<open>tau\<close> with
  \<open>N < tau \<le> 2 * N - 2\<close> is a ValueError.
\<close>

lemma lag_column_in_range:
  assumes "0 \<le> tau" and "tau \<le> int (length x)"
  shows "lag_column x tau = Inr (replicate (nat tau) NaN @ take (length x - nat tau) x)"
proof -
  have "py_take x (int (length x) - tau) = take (length x - nat tau) x"
    using assms by (simp add: py_take_def nat_diff_distrib)
  moreover have "min (nat tau) (length x) = nat tau" using assms by simp
  ultimately show ?thesis
    using assms by (simp add: lag_column_def assign_slice_def)
qed

lemma lag_column_long:
  assumes "int (length x) < tau" and "tau \<le> 2 * int (length x) - 2"
  shows "lag_column x tau = Inl ValueError"
proof -
  have "py_take x (int (length x) - tau) = take (nat (2 * int (length x) - tau)) x"
    using assms by (simp add: py_take_def algebra_simps)
  moreover have "length (take (nat (2 * int (length x) - tau)) x) = nat (2 * int (length x) - tau)"
    using assms by simp
  moreover have "2 \<le> nat (2 * int (length x) - tau)" using assms by simp
  moreover have "length x - nat tau = 0" using assms by simp
  ultimately show ?thesis
    using assms by (simp add: lag_column_def assign_slice_def)
qed

lemma foldl_max_ge: "(m::int) \<le> foldl max m ts \<and> (\<forall>t\<in>set ts. t \<le> foldl max m ts)"
proof (induction ts arbitrary: m)
  case Nil
  then show ?case by simp
next
  case (Cons a ts)
  from Cons [of "max m a"] show ?case by auto
qed

lemma list_max_ge: "t \<in> set ts \<Longrightarrow> t \<le> list_max ts"
  using foldl_max_ge [of "hd ts" "tl ts"] by (cases ts) (auto simp: list_max_def)

lemma list_max_mem: "ts \<noteq> [] \<Longrightarrow> list_max ts \<in> set ts"
proof -
  have "foldl max (m::int) us \<in> insert m (set us)" for m us
  proof (induction us arbitrary: m)
    case Nil
    then show ?case by simp
  next
    case (Cons a us)
    from Cons [of "max m a"] show ?case by (auto simp: max_def split: if_splits)
  qed
  from this [of "hd ts" "tl ts"] show "ts \<noteq> [] \<Longrightarrow> list_max ts \<in> set ts"
    by (cases ts) (auto simp: list_max_def)
qed

lemma make_partial_embedding_in_range:
  assumes "\<forall>tau\<in>set taus. 0 \<le> tau \<and> tau \<le> int (length x)"
  shows "\<exists>X. make_partial_embedding x taus True = Inr X \<and> length X = length x
           \<and> (\<forall>i<length x. length (X ! i) = length taus
                \<and> (\<forall>j<length taus.
                      X ! i ! j = (if nat (taus ! j) \<le> i then x ! (i - nat (taus ! j)) else NaN)))"
    and "taus \<noteq> [] \<Longrightarrow>
         \<exists>X. make_partial_embedding x taus False = Inr X
           \<and> length X = length x - nat (list_max taus)
           \<and> (\<forall>i<length x - nat (list_max taus). length (X ! i) = length taus
                \<and> (\<forall>j<length taus. X ! i ! j = x ! (i + nat (list_max taus) - nat (taus ! j))))"
proof -
  define col where "col tau = replicate (nat tau) NaN @ take (length x - nat tau) x" for tau
  have c: "collect (map (lag_column x) taus) = Inr (map col taus)"
    using assms by (intro collect_map_ok) (simp add: lag_column_in_range col_def)
  define X where "X = from_columns (length x) (map col taus)"
  have ent: "X ! i ! j = (if nat (taus ! j) \<le> i then x ! (i - nat (taus ! j)) else NaN)"
    and row: "length (X ! i) = length taus"
    if "i < length x" "j < length taus" for i j
  proof -
    have "taus ! j \<in> set taus" using that(2) by simp
    with assms have r: "0 \<le> taus ! j" "taus ! j \<le> int (length x)" by auto
    have "X ! i ! j = col (taus ! j) ! i"
      using that by (simp add: X_def from_columns_def)
    also have "\<dots> = (if nat (taus ! j) \<le> i then x ! (i - nat (taus ! j)) else NaN)"
      using that(1) r by (auto simp: col_def nth_append)
    finally show "X ! i ! j = (if nat (taus ! j) \<le> i then x ! (i - nat (taus ! j)) else NaN)" .
    show "length (X ! i) = length taus" using that(1) by (simp add: X_def from_columns_def)
  qed
  have row': "length (X ! i) = length taus" if "i < length x" for i
    using that by (simp add: X_def from_columns_def)
  have lenX: "length X = length x" by (simp add: X_def from_columns_def)
  have 1: "make_partial_embedding x taus True = Inr X"
    using c by (simp add: make_partial_embedding_def X_def)
  show "\<exists>X. make_partial_embedding x taus True = Inr X \<and> length X = length x
           \<and> (\<forall>i<length x. length (X ! i) = length taus
                \<and> (\<forall>j<length taus.
                      X ! i ! j = (if nat (taus ! j) \<le> i then x ! (i - nat (taus ! j)) else NaN)))"
    using 1 lenX row' ent by blast
  show "\<exists>X. make_partial_embedding x taus False = Inr X
           \<and> length X = length x - nat (list_max taus)
           \<and> (\<forall>i<length x - nat (list_max taus). length (X ! i) = length taus
                \<and> (\<forall>j<length taus. X ! i ! j = x ! (i + nat (list_max taus) - nat (taus ! j))))"
    if ne: "taus \<noteq> []"
  proof -
    define d where "d = nat (list_max taus)"
    have 2: "make_partial_embedding x taus False = Inr (drop d X)"
      using c ne by (simp add: make_partial_embedding_def X_def d_def)
    have "drop d X ! i ! j = x ! (i + d - nat (taus ! j)) \<and> length (drop d X ! i) = length taus"
      if "i < length x - d" "j < length taus" for i j
    proof -
      have "taus ! j \<le> list_max taus" using that(2) by (intro list_max_ge) simp
      then have le: "nat (taus ! j) \<le> d + i" by (simp add: d_def)
      have "drop d X ! i = X ! (d + i)" using that(1) lenX by simp
      moreover have "d + i < length x" using that(1) by simp
      ultimately show ?thesis using ent [of "d + i" j] row [of "d + i" j] that(2) le
        by (simp add: add.commute)
    qed
    moreover have "length (drop d X ! i) = length taus" if "i < length x - d" for i
    proof -
      have "drop d X ! i = X ! (d + i)" using that lenX by simp
      moreover have "d + i < length x" using that by simp
      ultimately show ?thesis using row' by simp
    qed
    ultimately show ?thesis using 2 lenX unfolding d_def by (intro exI [of _ "drop (nat (list_max taus)) X"]) simp
  qed
qed

text \<open>
  Claim C4 fails on the code for a lag \<open>tau\<close> with \<open>N < tau \<le> 2 * N - 2\<close>: the slice
  \<^verbatim>\<open>x[:(N-tau)]\<close> has a negative bound, so it counts from the end and holds
  \<open>2 * N - tau\<close> values, which do not fit the empty slice \<^verbatim>\<open>X[tau:,i]\<close>. For the series
  \<open>1, 2, 3\<close> and the lag \<open>4\<close> the call raises instead of returning a column of NaN.
\<close>

theorem make_partial_embedding_long_lag:
  "make_partial_embedding [Fin 1, Fin 2, Fin 3] [4] True = Inl ValueError"
  by (simp add: make_partial_embedding_def lag_column_def assign_slice_def py_take_def)

section \<open>Properties of the neighbour search\<close>

text \<open>
  Claim C1 fails on the code for an array that is not symmetric: the indices of row \<open>i\<close>
  are selected from column \<open>i\<close>, the distances are read from row \<open>i\<close>. In the array with
  the rows \<open>1, 2\<close> and \<open>0, 3\<close> the smallest entry of row 0 is at column 0, and the call
  returns the index 1 with the distance 2.
\<close>

theorem find_neighbors_asymmetric:
  "find_neighbors [[Fin 1, Fin 2], [Fin 0, Fin 3]] 1 = Inr ([[1], [0]], [[Fin 2], [Fin 0]])"
  by (simp add: find_neighbors_def neighbors_row_def column_def argpartition_def index_list_def
      sort_less_def upt_rec)

text \<open>
  What the call does on a square array, for every row \<open>i\<close>: the indices are \<open>k\<close> distinct
  row numbers, ascending in the sorting order of column \<open>i\<close>, and no row outside them has
  a smaller entry in column \<open>i\<close>; the distances are read from row \<open>i\<close>.
\<close>

lemma sort_less_irrefl [simp]: "\<not> sort_less a a"
  by (cases a) (simp_all add: sort_less_def)

lemma sort_less_trans: "sort_less a b \<Longrightarrow> sort_less b c \<Longrightarrow> sort_less a c"
  by (cases a; cases b; cases c) (simp_all add: sort_less_def)

lemma sort_le_trans: "\<not> sort_less b a \<Longrightarrow> \<not> sort_less c b \<Longrightarrow> \<not> sort_less c a"
  by (cases a; cases b; cases c) (simp_all add: sort_less_def)

lemma scan_min_least:
  assumes "minidx < length pre" and "minval = v ! (pre ! minidx)" and "k = length pre"
    and "\<forall>x\<in>set pre. \<not> sort_less (v ! x) minval"
  shows "scan_min v js k minidx minval < length (pre @ js)
       \<and> (\<forall>x\<in>set (pre @ js). \<not> sort_less (v ! x) (v ! ((pre @ js) ! scan_min v js k minidx minval)))"
  using assms
proof (induction js arbitrary: pre k minidx minval)
  case Nil
  then show ?case by simp
next
  case (Cons j js)
  show ?case
  proof (cases "sort_less (v ! j) minval")
    case True
    have "\<forall>x\<in>set (pre @ [j]). \<not> sort_less (v ! x) (v ! j)"
      using Cons.prems(4) True sort_less_trans by auto
    then have "scan_min v js (Suc k) k (v ! j) < length ((pre @ [j]) @ js)
       \<and> (\<forall>x\<in>set ((pre @ [j]) @ js).
             \<not> sort_less (v ! x) (v ! (((pre @ [j]) @ js) ! scan_min v js (Suc k) k (v ! j))))"
      using Cons.prems(3) by (intro Cons.IH) (simp_all add: nth_append)
    with True show ?thesis by simp
  next
    case False
    have "\<forall>x\<in>set (pre @ [j]). \<not> sort_less (v ! x) minval"
      using Cons.prems(4) False by auto
    then have "scan_min v js (Suc k) minidx minval < length ((pre @ [j]) @ js)
       \<and> (\<forall>x\<in>set ((pre @ [j]) @ js).
             \<not> sort_less (v ! x) (v ! (((pre @ [j]) @ js) ! scan_min v js (Suc k) minidx minval)))"
      using Cons.prems(1,2,3) by (intro Cons.IH) (simp_all add: nth_append)
    with False show ?thesis by simp
  qed
qed

lemma scan_min_head:
  "scan_min v js 1 0 (v ! j) < length (j # js)
 \<and> (\<forall>x\<in>set (j # js). \<not> sort_less (v ! x) (v ! ((j # js) ! scan_min v js 1 0 (v ! j))))"
  using scan_min_least [of 0 "[j]" "v ! j" v 1 js] by simp

lemma swap_head_set:
  assumes "m < length (j # js)"
  shows "set ((j # js)[0 := (j # js) ! m, m := j]) = set (j # js)"
    and "distinct ((j # js)[0 := (j # js) ! m, m := j]) = distinct (j # js)"
    and "length ((j # js)[0 := (j # js) ! m, m := j]) = length (j # js)"
    and "hd ((j # js)[0 := (j # js) ! m, m := j]) = (j # js) ! m"
proof -
  have eq: "(j # js)[0 := (j # js) ! m, m := j] = (j # js)[0 := (j # js) ! m, m := (j # js) ! 0]"
    by simp
  show "set ((j # js)[0 := (j # js) ! m, m := j]) = set (j # js)"
    unfolding eq using assms by (intro set_swap) simp_all
  show "distinct ((j # js)[0 := (j # js) ! m, m := j]) = distinct (j # js)"
    unfolding eq using assms by (intro distinct_swap) simp_all
  show "length ((j # js)[0 := (j # js) ! m, m := j]) = length (j # js)"
    by (simp del: list_update.simps)
  show "hd ((j # js)[0 := (j # js) ! m, m := j]) = (j # js) ! m"
    by (cases m) (simp_all add: hd_conv_nth)
qed

lemma dumb_select_perm:
  "length (dumb_select v idx k) = length idx
 \<and> set (dumb_select v idx k) = set idx
 \<and> (distinct (dumb_select v idx k) = distinct idx)"
proof (induction v idx k rule: dumb_select.induct)
  case (1 v idx)
  then show ?case by simp
next
  case (2 v k)
  then show ?case by simp
next
  case (3 v j js k)
  define m where "m = scan_min v js 1 0 (v ! j)"
  define ys where "ys = (j # js)[0 := (j # js) ! m, m := j]"
  have m: "m < length (j # js)" using scan_min_head [of v js j] by (simp add: m_def)
  have ys: "set ys = set (j # js)" "distinct ys = distinct (j # js)" "length ys = length (j # js)"
    using swap_head_set [OF m] by (simp_all add: ys_def)
  then have ne: "ys \<noteq> []" by auto
  have IH: "length (dumb_select v (tl ys) k) = length (tl ys)
     \<and> set (dumb_select v (tl ys) k) = set (tl ys)
     \<and> (distinct (dumb_select v (tl ys) k) = distinct (tl ys))"
    using "3.IH" [of m ys] by (simp add: m_def ys_def)
  have r: "dumb_select v (j # js) (Suc k) = hd ys # dumb_select v (tl ys) k"
    by (simp add: Let_def m_def ys_def)
  have split: "ys = hd ys # tl ys" using ne by simp
  have "set (hd ys # dumb_select v (tl ys) k) = set ys"
    using IH split by (metis list.simps(15))
  moreover have "distinct (hd ys # dumb_select v (tl ys) k) = distinct ys"
    using IH split by (metis distinct.simps(2))
  moreover have "length (hd ys # dumb_select v (tl ys) k) = length ys"
    using IH split by (metis length_Cons)
  ultimately show ?case using r ys by simp
qed

lemma dumb_select_sorted:
  assumes "k \<le> length idx"
  shows "\<forall>p<k. \<forall>q<length idx. p \<le> q \<longrightarrow>
           \<not> sort_less (v ! (dumb_select v idx k ! q)) (v ! (dumb_select v idx k ! p))"
  using assms
proof (induction v idx k rule: dumb_select.induct)
  case (1 v idx)
  then show ?case by simp
next
  case (2 v k)
  then show ?case by simp
next
  case (3 v j js k)
  define m where "m = scan_min v js 1 0 (v ! j)"
  define ys where "ys = (j # js)[0 := (j # js) ! m, m := j]"
  define r' where "r' = dumb_select v (tl ys) k"
  have m: "m < length (j # js)"
    and least: "\<forall>x\<in>set (j # js). \<not> sort_less (v ! x) (v ! ((j # js) ! m))"
    using scan_min_head [of v js j] by (simp_all add: m_def)
  have ys: "set ys = set (j # js)" "length ys = length (j # js)" "hd ys = (j # js) ! m"
    using swap_head_set [OF m] by (simp_all add: ys_def)
  have r: "dumb_select v (j # js) (Suc k) = hd ys # r'"
    by (simp add: Let_def m_def ys_def r'_def)
  have len': "length r' = length js" and set': "set r' = set (tl ys)"
    using dumb_select_perm [of v "tl ys" k] ys(2) by (simp_all add: r'_def)
  have k: "k \<le> length (tl ys)" using "3.prems" ys(2) by simp
  have IH: "\<forall>p<k. \<forall>q<length (tl ys). p \<le> q \<longrightarrow> \<not> sort_less (v ! (r' ! q)) (v ! (r' ! p))"
    using "3.IH" [of m ys] k by (simp add: m_def ys_def r'_def)
  have sub: "set (hd ys # r') \<subseteq> set (j # js)"
    using set' ys(1) by (metis list.sel(2) list.set_sel(1,2) list.simps(15) insert_subset subsetI empty_iff list.set(1))
  show ?case
  proof (intro allI impI)
    fix p q assume p: "p < Suc k" and q: "q < length (j # js)" and pq: "p \<le> q"
    show "\<not> sort_less (v ! (dumb_select v (j # js) (Suc k) ! q))
                       (v ! (dumb_select v (j # js) (Suc k) ! p))"
    proof (cases p)
      case 0
      have "(hd ys # r') ! q \<in> set (hd ys # r')"
        using q len' by (intro nth_mem) simp
      then have "(hd ys # r') ! q \<in> set (j # js)" using sub by blast
      with least have "\<not> sort_less (v ! ((hd ys # r') ! q)) (v ! ((j # js) ! m))" by blast
      then show ?thesis unfolding r 0 ys(3) by simp
    next
      case (Suc p')
      then obtain q' where q': "q = Suc q'" using pq by (cases q) auto
      have "p' < k" "q' < length (tl ys)" "p' \<le> q'"
        using p q pq Suc q' ys(2) by simp_all
      with IH have "\<not> sort_less (v ! (r' ! q')) (v ! (r' ! p'))" by blast
      then show ?thesis unfolding r Suc q' by simp
    qed
  qed
qed


lemma argpartition_take:
  assumes "k \<le> length v"
  shows "\<exists>part. argpartition v k = Inr part \<and> length (take k part) = k
           \<and> distinct (take k part) \<and> (\<forall>j\<in>set (take k part). j < length v)
           \<and> (\<forall>p<k. \<forall>q<k. p \<le> q \<longrightarrow> \<not> sort_less (v ! (part ! q)) (v ! (part ! p)))
           \<and> (\<forall>j\<in>set (take k part). \<forall>y<length v. y \<notin> set (take k part) \<longrightarrow>
                 \<not> sort_less (v ! y) (v ! j))"
proof -
  define part where "part = dumb_select v [0..<length v] k"
  have perm: "length part = length v" "set part = {0..<length v}" "distinct part"
    using dumb_select_perm [of v "[0..<length v]" k] by (simp_all add: part_def)
  have srt: "\<forall>p<k. \<forall>q<length v. p \<le> q \<longrightarrow> \<not> sort_less (v ! (part ! q)) (v ! (part ! p))"
    using dumb_select_sorted [of k "[0..<length v]" v] assms by (simp add: part_def)
  have 1: "argpartition v k = Inr part" using assms by (simp add: argpartition_def part_def)
  have 2: "length (take k part) = k" using assms perm(1) by simp
  have 3: "distinct (take k part)" using perm(3) by simp
  have 4: "\<forall>j\<in>set (take k part). j < length v"
    using perm(2) by (metis atLeastLessThan_iff in_set_takeD)
  have 5: "\<forall>p<k. \<forall>q<k. p \<le> q \<longrightarrow> \<not> sort_less (v ! (part ! q)) (v ! (part ! p))"
    using srt assms by auto
  have 6: "\<forall>j\<in>set (take k part). \<forall>y<length v. y \<notin> set (take k part) \<longrightarrow>
             \<not> sort_less (v ! y) (v ! j)"
  proof (intro ballI allI impI)
    fix j y assume j: "j \<in> set (take k part)" and y: "y < length v" "y \<notin> set (take k part)"
    from j obtain p where p: "p < k" "part ! p = j"
      using assms perm(1) by (auto simp: in_set_conv_nth)
    from y perm(2) have "y \<in> set part" by simp
    then obtain q where q: "q < length part" "part ! q = y"
      by (auto simp: in_set_conv_nth)
    have "\<not> q < k"
    proof
      assume "q < k"
      then have "part ! q \<in> set (take k part)"
        using q(1) by (auto simp: in_set_conv_nth intro!: exI [of _ q])
      with q(2) y(2) show False by simp
    qed
    with p q perm(1) srt show "\<not> sort_less (v ! y) (v ! j)" by auto
  qed
  from 1 2 3 4 5 6 show ?thesis by blast
qed

lemma pigeonhole_filter:
  assumes "distinct Ni" and "\<forall>j\<in>set Ni. j < n"
    and "length (filter P [0..<n]) < length Ni"
  shows "\<exists>j\<in>set Ni. \<not> P j"
proof (rule ccontr)
  assume "\<not> (\<exists>j\<in>set Ni. \<not> P j)"
  with assms(2) have "set Ni \<subseteq> set (filter P [0..<n])" by auto
  then have "card (set Ni) \<le> card (set (filter P [0..<n]))"
    by (intro card_mono) simp_all
  also have "\<dots> \<le> length (filter P [0..<n])" by (rule card_length)
  finally show False using assms(1,3) by (simp add: distinct_card)
qed

lemma neighbors_row_square:
  assumes "length D = n" and "\<forall>row\<in>set D. length row = n" and "k \<le> n" and "i < n"
  shows "\<exists>Ni. neighbors_row D k i = Inr (Ni, map (\<lambda>j. D ! i ! j) Ni)
           \<and> length Ni = k \<and> distinct Ni \<and> (\<forall>j\<in>set Ni. j < n)
           \<and> (\<forall>p<k. \<forall>q<k. p \<le> q \<longrightarrow> \<not> sort_less (D ! (Ni ! q) ! i) (D ! (Ni ! p) ! i))
           \<and> (\<forall>j\<in>set Ni. \<forall>y<n. y \<notin> set Ni \<longrightarrow> \<not> sort_less (D ! y ! i) (D ! j ! i))"
proof -
  define col where "col = map (\<lambda>row. row ! i) D"
  have col: "column D i = Inr col" "length col = n"
    using assms by (simp_all add: column_def col_def list_all_iff)
  have nth: "col ! y = D ! y ! i" if "y < n" for y
    using that assms(1) by (simp add: col_def)
  from argpartition_take [of k col] assms(3) col(2)
  obtain part where part: "argpartition col k = Inr part" "length (take k part) = k"
    "distinct (take k part)" "\<forall>j\<in>set (take k part). j < n"
    "\<forall>p<k. \<forall>q<k. p \<le> q \<longrightarrow> \<not> sort_less (col ! (part ! q)) (col ! (part ! p))"
    "\<forall>j\<in>set (take k part). \<forall>y<n. y \<notin> set (take k part) \<longrightarrow> \<not> sort_less (col ! y) (col ! j)"
    by auto
  define Ni where "Ni = take k part"
  have row: "length (D ! i) = n" using assms(1,2,4) by simp
  have idx: "index_list (D ! i) Ni = Inr (map (\<lambda>j. D ! i ! j) Ni)"
    using part(4) row by (simp add: index_list_def Ni_def list_all_iff)
  have 1: "neighbors_row D k i = Inr (Ni, map (\<lambda>j. D ! i ! j) Ni)"
    using col(1) part(1) idx by (simp add: neighbors_row_def Ni_def Let_def)
  have mem: "Ni ! p \<in> set Ni" if "p < k" for p
    using that part(2) unfolding Ni_def by (metis nth_mem)
  have lt: "Ni ! p < n" if "p < k" for p
    using mem [OF that] part(4) by (simp add: Ni_def)
  have 5: "\<forall>p<k. \<forall>q<k. p \<le> q \<longrightarrow> \<not> sort_less (D ! (Ni ! q) ! i) (D ! (Ni ! p) ! i)"
  proof (intro allI impI)
    fix p q assume pq: "p < k" "q < k" "p \<le> q"
    then have "\<not> sort_less (col ! (part ! q)) (col ! (part ! p))" using part(5) by blast
    moreover have "Ni ! p = part ! p" "Ni ! q = part ! q" using pq by (simp_all add: Ni_def)
    ultimately show "\<not> sort_less (D ! (Ni ! q) ! i) (D ! (Ni ! p) ! i)"
      using nth lt pq by metis
  qed
  have 6: "\<forall>j\<in>set Ni. \<forall>y<n. y \<notin> set Ni \<longrightarrow> \<not> sort_less (D ! y ! i) (D ! j ! i)"
    using part(4,6) nth by (simp add: Ni_def)
  from 1 part(2,3,4) 5 6 show ?thesis unfolding Ni_def by blast
qed

lemma find_neighbors_rows:
  assumes "\<forall>i<length D. \<exists>r. neighbors_row D k i = Inr r"
  shows "\<exists>N DN. find_neighbors D k = Inr (N, DN) \<and> length N = length D \<and> length DN = length D
           \<and> (\<forall>i<length D. neighbors_row D k i = Inr (N ! i, DN ! i))"
proof -
  define g where "g i = (case neighbors_row D k i of Inr r \<Rightarrow> r)" for i
  have "neighbors_row D k i = Inr (g i)" if "i \<in> set [0..<length D]" for i
    using that assms by (auto simp: g_def)
  then have c: "collect (map (neighbors_row D k) [0..<length D]) = Inr (map g [0..<length D])"
    by (rule collect_map_ok)
  have "neighbors_row D k i = Inr (map fst (map g [0..<length D]) ! i, map snd (map g [0..<length D]) ! i)"
    if "i < length D" for i
    using that assms by (auto simp: g_def)
  with c show ?thesis by (simp add: find_neighbors_def)
qed

text \<open>
  On a symmetric array column \<open>i\<close> and row \<open>i\<close> hold the same values, and the call
  returns for every row the \<open>k\<close> indices of its smallest entries, with their distances in
  ascending order.
\<close>

lemma find_neighbors_symmetric:
  assumes "length D = n" and "\<forall>row\<in>set D. length row = n" and "k \<le> n"
    and sym: "\<forall>i<n. \<forall>j<n. D ! i ! j = D ! j ! i"
  shows "\<exists>N DN. find_neighbors D k = Inr (N, DN) \<and> length N = n \<and> length DN = n
           \<and> (\<forall>i<n. length (N ! i) = k \<and> distinct (N ! i) \<and> (\<forall>j\<in>set (N ! i). j < n)
                 \<and> DN ! i = map (\<lambda>j. D ! i ! j) (N ! i)
                 \<and> (\<forall>p<k. \<forall>q<k. p \<le> q \<longrightarrow> \<not> sort_less (DN ! i ! q) (DN ! i ! p))
                 \<and> (\<forall>j\<in>set (N ! i). \<forall>y<n. y \<notin> set (N ! i) \<longrightarrow>
                       \<not> sort_less (D ! i ! y) (D ! i ! j)))"
proof -
  have rows: "\<forall>i<length D. \<exists>r. neighbors_row D k i = Inr r"
    using neighbors_row_square [OF assms(1,2,3)] assms(1) by blast
  from find_neighbors_rows [OF rows] obtain N DN where
    fn: "find_neighbors D k = Inr (N, DN)" "length N = n" "length DN = n"
    and row: "\<forall>i<n. neighbors_row D k i = Inr (N ! i, DN ! i)"
    using assms(1) by auto
  have "length (N ! i) = k \<and> distinct (N ! i) \<and> (\<forall>j\<in>set (N ! i). j < n)
          \<and> DN ! i = map (\<lambda>j. D ! i ! j) (N ! i)
          \<and> (\<forall>p<k. \<forall>q<k. p \<le> q \<longrightarrow> \<not> sort_less (DN ! i ! q) (DN ! i ! p))
          \<and> (\<forall>j\<in>set (N ! i). \<forall>y<n. y \<notin> set (N ! i) \<longrightarrow> \<not> sort_less (D ! i ! y) (D ! i ! j))"
    if i: "i < n" for i
  proof -
    from neighbors_row_square [OF assms(1,2,3) i] row i
    have a: "length (N ! i) = k" "distinct (N ! i)" "\<forall>j\<in>set (N ! i). j < n"
      "DN ! i = map (\<lambda>j. D ! i ! j) (N ! i)"
      and srt: "\<forall>p<k. \<forall>q<k. p \<le> q \<longrightarrow> \<not> sort_less (D ! (N ! i ! q) ! i) (D ! (N ! i ! p) ! i)"
      and least: "\<forall>j\<in>set (N ! i). \<forall>y<n. y \<notin> set (N ! i) \<longrightarrow> \<not> sort_less (D ! y ! i) (D ! j ! i)"
      by auto
    have lt: "N ! i ! p < n" if "p < k" for p
      using that a(1,3) by (metis nth_mem)
    have 1: "\<not> sort_less (DN ! i ! q) (DN ! i ! p)" if "p < k" "q < k" "p \<le> q" for p q
    proof -
      have "DN ! i ! q = D ! (N ! i ! q) ! i" "DN ! i ! p = D ! (N ! i ! p) ! i"
        using that a(1,4) sym i lt by simp_all
      with srt that show ?thesis by simp
    qed
    have 2: "\<not> sort_less (D ! i ! y) (D ! i ! j)" if "j \<in> set (N ! i)" "y < n" "y \<notin> set (N ! i)" for j y
    proof -
      have "D ! i ! y = D ! y ! i" "D ! i ! j = D ! j ! i" using that a(3) sym i by simp_all
      with least that show ?thesis by simp
    qed
    from a 1 2 show ?thesis by blast
  qed
  with fn show ?thesis by blast
qed

text \<open>
  Claim C9. On a square array, with \<open>1 \<le> k \<le> n\<close>, the call returns: no error is raised,
  whatever the entries are. Each row of the result holds \<open>k\<close> distinct indices and the
  entries of row \<open>i\<close> at these indices. When fewer than \<open>k\<close> entries of the column that row
  \<open>i\<close> is selected from are finite, an index whose entry there is an infinity or NaN is
  among the neighbours returned.
\<close>

theorem find_neighbors_total:
  assumes "length D = n" and "\<forall>row\<in>set D. length row = n" and "1 \<le> k" and "k \<le> n"
  shows "\<exists>N DN. find_neighbors D k = Inr (N, DN) \<and> length N = n \<and> length DN = n
           \<and> (\<forall>i<n. length (N ! i) = k \<and> distinct (N ! i) \<and> (\<forall>j\<in>set (N ! i). j < n)
                 \<and> DN ! i = map (\<lambda>j. D ! i ! j) (N ! i)
                 \<and> (length (filter (\<lambda>r. isfinite (D ! r ! i)) [0..<n]) < k \<longrightarrow>
                      (\<exists>j\<in>set (N ! i). \<not> isfinite (D ! j ! i))))"
proof -
  have rows: "\<forall>i<length D. \<exists>r. neighbors_row D k i = Inr r"
    using neighbors_row_square [OF assms(1,2,4)] assms(1) by blast
  from find_neighbors_rows [OF rows] obtain N DN where
    fn: "find_neighbors D k = Inr (N, DN)" "length N = n" "length DN = n"
    and row: "\<forall>i<n. neighbors_row D k i = Inr (N ! i, DN ! i)"
    using assms(1) by auto
  have "length (N ! i) = k \<and> distinct (N ! i) \<and> (\<forall>j\<in>set (N ! i). j < n)
          \<and> DN ! i = map (\<lambda>j. D ! i ! j) (N ! i)
          \<and> (length (filter (\<lambda>r. isfinite (D ! r ! i)) [0..<n]) < k \<longrightarrow>
               (\<exists>j\<in>set (N ! i). \<not> isfinite (D ! j ! i)))" if i: "i < n" for i
  proof -
    from neighbors_row_square [OF assms(1,2,4) i] row i
    have a: "length (N ! i) = k" "distinct (N ! i)" "\<forall>j\<in>set (N ! i). j < n"
      "DN ! i = map (\<lambda>j. D ! i ! j) (N ! i)"
      by auto
    have "\<exists>j\<in>set (N ! i). \<not> isfinite (D ! j ! i)"
      if "length (filter (\<lambda>r. isfinite (D ! r ! i)) [0..<n]) < k"
      using pigeonhole_filter [of "N ! i" n "\<lambda>r. isfinite (D ! r ! i)"] a that by simp
    with a show ?thesis by blast
  qed
  with fn show ?thesis by blast
qed


theorem find_neighbors_total_witness:
  "\<exists>N DN. find_neighbors [[NaN, PInf, Fin 1], [PInf, NaN, NaN], [Fin 1, NaN, NaN]] 2 = Inr (N, DN)
     \<and> length (N ! 1) = 2
     \<and> (\<exists>j\<in>set (N ! 1). \<not> isfinite ([[NaN, PInf, Fin 1], [PInf, NaN, NaN], [Fin 1, NaN, NaN]] ! j ! 1))"
proof -
  have h1: "length [[NaN, PInf, Fin 1], [PInf, NaN, NaN], [Fin 1, NaN, NaN]] = 3" by simp
  have h2: "\<forall>row\<in>set [[NaN, PInf, Fin 1], [PInf, NaN, NaN], [Fin 1, NaN, NaN]]. length row = 3"
    by simp
  have h3: "(1::nat) \<le> 2" and h4: "(2::nat) \<le> 3" by simp_all
  have few: "length (filter (\<lambda>r. isfinite ([[NaN, PInf, Fin 1], [PInf, NaN, NaN], [Fin 1, NaN, NaN]] ! r ! 1))
               [0..<3]) < 2"
    by (simp add: upt_rec)
  have one: "(1::nat) < 3" by simp
  from find_neighbors_total [OF h1 h2 h3 h4] few one show ?thesis by blast
qed

section \<open>Properties of the masked distance matrix\<close>

lemma theiler_mask_upto:
  "length (foldl (\<lambda>D' offset. mask_offset D' (int offset) NaN) D [0..<m]) = length D
 \<and> (\<forall>i<length D.
       length (foldl (\<lambda>D' offset. mask_offset D' (int offset) NaN) D [0..<m] ! i) = length (D ! i)
     \<and> (\<forall>j<length (D ! i).
           foldl (\<lambda>D' offset. mask_offset D' (int offset) NaN) D [0..<m] ! i ! j =
             (if \<bar>int i - int j\<bar> < int m then NaN else D ! i ! j)))"
proof (induction m)
  case 0
  then show ?case by simp
next
  case (Suc m)
  define D' where "D' = foldl (\<lambda>D' offset. mask_offset D' (int offset) NaN) D [0..<m]"
  have step: "foldl (\<lambda>D' offset. mask_offset D' (int offset) NaN) D [0..<Suc m] =
              mask_offset D' (int m) NaN"
    by (simp add: D'_def)
  have len: "length D' = length D"
    and row: "\<And>i. i < length D \<Longrightarrow> length (D' ! i) = length (D ! i)"
    and ent: "\<And>i j. i < length D \<Longrightarrow> j < length (D ! i) \<Longrightarrow>
                D' ! i ! j = (if \<bar>int i - int j\<bar> < int m then NaN else D ! i ! j)"
    using Suc.IH by (simp_all add: D'_def)
  show ?case
    unfolding step
  proof (intro conjI allI impI)
    show "length (mask_offset D' (int m) NaN) = length D" using len by simp
  next
    fix i assume "i < length D"
    then show "length (mask_offset D' (int m) NaN ! i) = length (D ! i)"
      using len row by simp
  next
    fix i j assume i: "i < length D" and j: "j < length (D ! i)"
    have "mask_offset D' (int m) NaN ! i ! j =
            (if int j = int i + int m \<or> (0 < int m \<and> int j = int i - int m)
             then NaN else D' ! i ! j)"
      using i j len row by (intro mask_offset_entry) simp_all
    also have "\<dots> = (if \<bar>int i - int j\<bar> < int (Suc m) then NaN else D ! i ! j)"
      using ent [OF i j] by auto
    finally show "mask_offset D' (int m) NaN ! i ! j =
                    (if \<bar>int i - int j\<bar> < int (Suc m) then NaN else D ! i ! j)" .
  qed
qed

lemma theiler_mask_entry:
  assumes "i < length D" and "j < length (D ! i)"
  shows "theiler_mask D nmin ! i ! j = (if \<bar>int i - int j\<bar> < nmin then NaN else D ! i ! j)"
proof -
  have "theiler_mask D nmin ! i ! j =
          (if \<bar>int i - int j\<bar> < int (nat nmin) then NaN else D ! i ! j)"
    using theiler_mask_upto [of D "nat nmin"] assms by (simp add: theiler_mask_def)
  then show ?thesis by auto
qed

lemma theiler_mask_shape:
  "length (theiler_mask D nmin) = length D"
  "i < length D \<Longrightarrow> length (theiler_mask D nmin ! i) = length (D ! i)"
  using theiler_mask_upto [of D "nat nmin"] by (simp_all add: theiler_mask_def)

lemma euclidean_distance_rect:
  assumes "\<forall>a\<in>set X. length a = c"
  shows "euclidean_distance X X =
           Inr (map (\<lambda>a. map (\<lambda>b. fsqrt (fsum (map (\<lambda>j. fsq (fsub (a ! j) (b ! j))) [0..<c]))) X) X)"
  using squared_euclidean_distance_rect [OF assms assms]
  by (simp add: euclidean_distance_def comp_def)

lemma masked_distance_rect:
  assumes "\<forall>row\<in>set X. length row = c"
  shows "\<exists>D. masked_distance X nmin = Inr D \<and> length D = length X
           \<and> (\<forall>i<length X. length (D ! i) = length X
                \<and> (\<forall>k<length X.
                     D ! i ! k =
                       (if \<bar>int i - int k\<bar> < nmin then NaN
                        else if feq (fsqrt (fsum (map (\<lambda>j. fsq (fsub (X ! i ! j) (X ! k ! j))) [0..<c])))
                                  (Fin 0)
                        then PInf
                        else fsqrt (fsum (map (\<lambda>j. fsq (fsub (X ! i ! j) (X ! k ! j))) [0..<c])))))"
proof -
  define E where
    "E = map (\<lambda>a. map (\<lambda>b. fsqrt (fsum (map (\<lambda>j. fsq (fsub (a ! j) (b ! j))) [0..<c]))) X) X"
  define Z where "Z = zeros_to_inf E"
  have md: "masked_distance X nmin = Inr (theiler_mask Z nmin)"
    using euclidean_distance_rect [OF assms] by (simp add: masked_distance_def E_def Z_def)
  have lenZ: "length Z = length X" by (simp add: Z_def zeros_to_inf_def E_def)
  have rowZ: "length (Z ! i) = length X" if "i < length X" for i
    using that by (simp add: Z_def zeros_to_inf_def E_def)
  have entZ: "Z ! i ! k =
      (if feq (fsqrt (fsum (map (\<lambda>j. fsq (fsub (X ! i ! j) (X ! k ! j))) [0..<c]))) (Fin 0)
       then PInf else fsqrt (fsum (map (\<lambda>j. fsq (fsub (X ! i ! j) (X ! k ! j))) [0..<c])))"
    if "i < length X" "k < length X" for i k
    using that by (simp add: Z_def zeros_to_inf_def E_def)
  show ?thesis
  proof (intro exI conjI allI impI)
    show "masked_distance X nmin = Inr (theiler_mask Z nmin)" by (rule md)
    show "length (theiler_mask Z nmin) = length X" using lenZ by (simp add: theiler_mask_shape)
  next
    fix i assume "i < length X"
    then show "length (theiler_mask Z nmin ! i) = length X"
      using lenZ rowZ by (simp add: theiler_mask_shape)
  next
    fix i k assume ik: "i < length X" "k < length X"
    then have "theiler_mask Z nmin ! i ! k = (if \<bar>int i - int k\<bar> < nmin then NaN else Z ! i ! k)"
      using lenZ rowZ by (intro theiler_mask_entry) simp_all
    then show "theiler_mask Z nmin ! i ! k =
            (if \<bar>int i - int k\<bar> < nmin then NaN
             else if feq (fsqrt (fsum (map (\<lambda>j. fsq (fsub (X ! i ! j) (X ! k ! j))) [0..<c]))) (Fin 0)
             then PInf
             else fsqrt (fsum (map (\<lambda>j. fsq (fsub (X ! i ! j) (X ! k ! j))) [0..<c])))"
      using entZ [OF ik] by simp
  qed
qed

lemma select_columns_Inr:
  assumes "select_columns X_full taus = Inr X"
  shows "X = map (\<lambda>row. map (\<lambda>t. row ! t) taus) X_full"
    and "length X = length X_full"
    and "\<forall>row\<in>set X. length row = length taus"
    and "\<forall>row\<in>set X_full. \<forall>t\<in>set taus. t < length row"
  using assms by (auto simp: select_columns_def list_all_iff split: if_splits)

text \<open>
  Claim C5. In an iteration, \<open>X\<close> is the full matrix restricted to the lags chosen so far,
  and the array handed to the neighbour search is \<open>masked_distance X\<close>. It is computed
  without an error, and its entry \<open>(i, k)\<close> is NaN when \<open>|i - k| < neighbor_offset_min\<close>;
  otherwise \<open>+\<infinity>\<close> when the Euclidean distance of the rows \<open>i\<close> and \<open>k\<close> of \<open>X\<close> is
  zero; otherwise that distance. The band is tested first: a zero distance inside the
  band ends as NaN.
\<close>

theorem masked_distance_entries:
  assumes "select_columns X_full taus = Inr X"
  shows "\<exists>D. masked_distance X nmin = Inr D \<and> length D = length X
           \<and> (\<forall>i<length X. length (D ! i) = length X
                \<and> (\<forall>k<length X.
                     D ! i ! k =
                       (if \<bar>int i - int k\<bar> < nmin then NaN
                        else if feq (fsqrt (fsum (map (\<lambda>j. fsq (fsub (X ! i ! j) (X ! k ! j)))
                                                   [0..<length taus])))
                                  (Fin 0)
                        then PInf
                        else fsqrt (fsum (map (\<lambda>j. fsq (fsub (X ! i ! j) (X ! k ! j)))
                                           [0..<length taus])))))"
  using masked_distance_rect [OF select_columns_Inr(3) [OF assms]] .


theorem masked_distance_entries_witness:
  "select_columns [[Fin 1, NaN], [Fin 2, Fin 1], [Fin 1, Fin 2]] [0] = Inr [[Fin 1], [Fin 2], [Fin 1]]
 \<and> masked_distance [[Fin 1], [Fin 2], [Fin 1]] 1
     = Inr [[NaN, Fin 1, PInf], [Fin 1, NaN, Fin 1], [PInf, Fin 1, NaN]]"
proof -
  have h: "select_columns [[Fin 1, NaN], [Fin 2, Fin 1], [Fin 1, Fin 2]] [0]
             = Inr [[Fin 1], [Fin 2], [Fin 1]]"
    by (simp add: select_columns_def)
  show ?thesis
    using h masked_distance_entries [OF h, of 1]
    by (simp add: masked_distance_def euclidean_distance_def squared_euclidean_distance_def
        row_sqdist_def fsum_def fsub_def zeros_to_inf_def theiler_mask_def mask_offset_def
        assign_diagonal_def upt_rec)
qed

section \<open>Properties of the greedy loop\<close>

lemma collect_length: "collect rs = Inr vs \<Longrightarrow> length vs = length rs"
  using collect_Inr_D by fastforce

lemma make_partial_embedding_shape:
  assumes "make_partial_embedding x taus p = Inr X"
  shows "\<forall>row\<in>set X. length row = length taus"
proof -
  from assms obtain cols where c: "collect (map (lag_column x) taus) = Inr cols"
    and X: "X = from_columns (length x) cols \<or> X = drop (nat (list_max taus)) (from_columns (length x) cols)"
    by (auto simp: make_partial_embedding_def Let_def split: sum.splits if_splits)
  have "length cols = length taus" using collect_length [OF c] by simp
  then have "\<forall>row\<in>set (from_columns (length x) cols). length row = length taus"
    by (simp add: from_columns_def)
  with X show ?thesis by (auto dest: in_set_dropD)
qed

lemma make_full_embedding_shape:
  assumes "make_full_embedding x E tau p = Inr X"
  shows "0 < E" and "\<forall>row\<in>set X. length row = nat E"
proof -
  from assms show "0 < E" by (auto simp: make_full_embedding_def split: if_splits)
  from assms have "make_partial_embedding x (map (\<lambda>j. int j * tau) [0..<nat E]) p = Inr X"
    by (auto simp: make_full_embedding_def split: if_splits)
  from make_partial_embedding_shape [OF this] show "\<forall>row\<in>set X. length row = nat E" by simp
qed

lemma strict_sorted_length:
  "sorted_wrt (<) (a # xs) \<Longrightarrow> \<forall>t\<in>set (a # xs). t \<le> (m::nat) \<Longrightarrow> a + length xs \<le> m"
proof (induction xs arbitrary: a)
  case Nil
  then show ?case by simp
next
  case (Cons b xs)
  then have "b + length xs \<le> m" by simp
  moreover from Cons.prems(1) have "a < b" by simp
  ultimately show ?case by simp
qed

lemma nichkawde_loop_appends:
  assumes "nichkawde_loop X_full E_max nmin taus n = Inr (taus', n')"
  shows "taus \<noteq> [] \<and> (\<exists>added. taus' = taus @ added \<and> n' = n + length added
           \<and> sorted_wrt (<) (last taus # added) \<and> (\<forall>t\<in>set added. int t < E_max))"
  using assms
proof (induction X_full E_max nmin taus n rule: nichkawde_loop.induct)
  case (1 X_full E_max nmin taus n)
  from "1.prems" have ne: "taus \<noteq> []"
    by (simp add: nichkawde_loop.simps [of X_full E_max nmin taus n] split: if_splits)
  show ?case
  proof (cases "int (last taus) < E_max - 1")
    case False
    with "1.prems" ne have "taus' = taus" "n' = n"
      by (simp_all add: nichkawde_loop.simps [of X_full E_max nmin taus n])
    with ne show ?thesis by simp
  next
    case True
    with "1.prems" ne obtain t where
      step: "nichkawde_step X_full E_max nmin taus = Inr t"
      and rec: "nichkawde_loop X_full E_max nmin (taus @ [t]) (Suc n) = Inr (taus', n')"
      by (auto simp: nichkawde_loop.simps [of X_full E_max nmin taus n] split: sum.splits)
    from "1.IH" [OF ne True step rec] obtain added where
      a: "taus' = (taus @ [t]) @ added" "n' = Suc n + length added"
         "sorted_wrt (<) (last (taus @ [t]) # added)" "\<forall>t\<in>set added. int t < E_max"
      by blast
    from nichkawde_step_range [OF step] have t: "last taus < t" "int t < E_max" by simp_all
    have "sorted_wrt (<) (last taus # t # added)"
      using a(3) t(1) by auto
    with a t ne show ?thesis
      by (intro conjI exI [of _ "t # added"]) simp_all
  qed
qed

lemma nichkawde_loop_from_zero:
  assumes "nichkawde_loop X_full E_max nmin [0] 0 = Inr (taus, n)" and "0 < E_max"
  shows "length taus = Suc n" and "int n \<le> E_max - 1" and "sorted_wrt (<) taus"
    and "hd taus = 0" and "\<forall>t\<in>set taus. int t \<le> E_max - 1"
proof -
  from nichkawde_loop_appends [OF assms(1)] obtain added where
    a: "taus = [0] @ added" "n = length added" "sorted_wrt (<) (0 # added)"
       "\<forall>t\<in>set added. int t < E_max"
    by auto
  show "length taus = Suc n" using a by simp
  show "sorted_wrt (<) taus" using a by simp
  show "hd taus = 0" using a by simp
  show bound: "\<forall>t\<in>set taus. int t \<le> E_max - 1" using a assms(2) by auto
  have "\<forall>t\<in>set (0 # added). t \<le> nat (E_max - 1)" using a(4) assms(2) by auto
  from strict_sorted_length [OF a(3) this] have "length added \<le> nat (E_max - 1)" by simp
  then show "int n \<le> E_max - 1" using a(2) assms(2) by simp
qed


lemma select_columns_ok:
  assumes "\<forall>row\<in>set X_full. length row = c" and "\<forall>t\<in>set taus. t < c"
  shows "select_columns X_full taus = Inr (map (\<lambda>row. map (\<lambda>t. row ! t) taus) X_full)"
  using assms by (simp add: select_columns_def list_all_iff)

lemma step_neighbors_ok:
  assumes "\<forall>row\<in>set X_full. length row = c" and "\<forall>t\<in>set taus. t < c"
  shows "\<exists>N0 DN0 X D. step_neighbors X_full nmin taus = Inr (N0, DN0)
           \<and> select_columns X_full taus = Inr X \<and> masked_distance X nmin = Inr D
           \<and> length N0 = length X_full \<and> length DN0 = length X_full
           \<and> (\<forall>i<length X_full. N0 ! i < length X_full \<and> DN0 ! i = D ! i ! (N0 ! i))"
proof -
  define n where "n = length X_full"
  define X where "X = map (\<lambda>row. map (\<lambda>t. row ! t) taus) X_full"
  have sel: "select_columns X_full taus = Inr X"
    using select_columns_ok [OF assms] by (simp add: X_def)
  have lenX: "length X = n" by (simp add: X_def n_def)
  from masked_distance_rect [OF select_columns_Inr(3) [OF sel], of nmin] obtain D where
    D: "masked_distance X nmin = Inr D" "length D = n" "\<forall>i<n. length (D ! i) = n"
    using lenX by auto
  have sq: "\<forall>row\<in>set D. length row = n"
    using D(2,3) by (auto simp: in_set_conv_nth)
  have rows: "\<exists>Ni. neighbors_row D 1 i = Inr (Ni, map (\<lambda>j. D ! i ! j) Ni)
                \<and> length Ni = 1 \<and> (\<forall>j\<in>set Ni. j < n)" if "i < n" for i
    using neighbors_row_square [OF D(2) sq _ that, of 1] that by auto
  then have "\<forall>i<length D. \<exists>r. neighbors_row D 1 i = Inr r" using D(2) by blast
  from find_neighbors_rows [OF this] obtain N DN where
    fn: "find_neighbors D 1 = Inr (N, DN)" "length N = n" "length DN = n"
    and row: "\<forall>i<n. neighbors_row D 1 i = Inr (N ! i, DN ! i)"
    using D(2) by auto
  have ent: "map (\<lambda>r. r ! 0) N ! i < n \<and> map (\<lambda>r. r ! 0) DN ! i = D ! i ! (map (\<lambda>r. r ! 0) N ! i)"
    if i: "i < n" for i
  proof -
    from rows [OF i] row i have a: "length (N ! i) = 1" "\<forall>j\<in>set (N ! i). j < n"
      "DN ! i = map (\<lambda>j. D ! i ! j) (N ! i)" by auto
    from a(1) have "N ! i ! 0 \<in> set (N ! i)" by (intro nth_mem) simp
    with a(2) have "N ! i ! 0 < n" by blast
    moreover have "DN ! i ! 0 = D ! i ! (N ! i ! 0)" using a(1,3) by simp
    ultimately show ?thesis using i fn(2,3) by simp
  qed
  define N0 where "N0 = map (\<lambda>r. r ! 0) N"
  define DN0 where "DN0 = map (\<lambda>r. r ! 0) DN"
  have 1: "step_neighbors X_full nmin taus = Inr (N0, DN0)"
    using sel D(1) fn(1) by (simp add: step_neighbors_def N0_def DN0_def)
  have 2: "length N0 = length X_full" "length DN0 = length X_full"
    using fn(2,3) by (simp_all add: N0_def DN0_def n_def)
  have 3: "\<forall>i<length X_full. N0 ! i < length X_full \<and> DN0 ! i = D ! i ! (N0 ! i)"
    using ent by (simp add: N0_def DN0_def n_def)
  from 1 sel D(1) 2 3 show ?thesis by blast
qed

lemma candidate_derivs_ok:
  assumes "\<forall>row\<in>set X_full. length row = c" and "t < c"
    and "\<forall>j\<in>set N0. j < length X_full"
  shows "candidate_derivs X_full N0 DN0 t =
           Inr (filter (\<lambda>d. \<not> isnan d \<and> \<not> feq d (Fin 0))
                  (map (\<lambda>(a, b). fdiv a b)
                     (zip (map (\<lambda>(a, b). fabs (fsub a b))
                             (zip (map (\<lambda>row. row ! t) X_full)
                                  (map (\<lambda>j. X_full ! j ! t) N0)))
                          DN0)))"
proof -
  have col: "column X_full t = Inr (map (\<lambda>row. row ! t) X_full)"
    using assms(1,2) by (simp add: column_def list_all_iff)
  have idx: "index_list (map (\<lambda>row. row ! t) X_full) N0 = Inr (map (\<lambda>j. X_full ! j ! t) N0)"
    using assms(3) by (simp add: index_list_def list_all_iff)
  show ?thesis by (simp add: candidate_derivs_def col idx)
qed

lemma geo_mean_deriv_ok:
  assumes "\<forall>row\<in>set X_full. length row = c" and "t < c"
    and "\<forall>j\<in>set N0. j < length X_full"
  shows "\<exists>g. geo_mean_deriv X_full N0 DN0 t = Inr g"
  using candidate_derivs_ok [OF assms] by (simp add: geo_mean_deriv_def)

lemma scan_lags_ok:
  assumes "\<forall>t\<in>set ts. \<exists>g. geo_mean_deriv X_full N0 DN0 t = Inr g"
  shows "\<exists>r. scan_lags X_full N0 DN0 ts best = Inr r"
  using assms
proof (induction ts arbitrary: best)
  case Nil
  then show ?case by simp
next
  case (Cons t ts)
  then obtain g where "geo_mean_deriv X_full N0 DN0 t = Inr g" by auto
  with Cons show ?case by (cases best) simp
qed

lemma nichkawde_step_outcome:
  assumes "\<forall>row\<in>set X_full. length row = nat E_max" and "\<forall>t\<in>set taus. t < nat E_max"
  shows "nichkawde_step X_full E_max nmin taus = Inl EmbeddingFailure
       \<or> (\<exists>t. nichkawde_step X_full E_max nmin taus = Inr t)"
proof -
  from step_neighbors_ok [OF assms, of nmin] obtain N0 DN0 where
    sn: "step_neighbors X_full nmin taus = Inr (N0, DN0)" "length N0 = length X_full"
    and lt: "\<forall>i<length X_full. N0 ! i < length X_full"
    by blast
  have N0: "\<forall>j\<in>set N0. j < length X_full"
    using sn(2) lt by (auto simp: in_set_conv_nth)
  have "\<forall>t\<in>set [last taus + 1..<nat E_max]. \<exists>g. geo_mean_deriv X_full N0 DN0 t = Inr g"
    using geo_mean_deriv_ok [OF assms(1) _ N0] by simp
  from scan_lags_ok [OF this] obtain r where
    "scan_lags X_full N0 DN0 [last taus + 1..<nat E_max] (Fin 0, None) = Inr r" by blast
  with sn(1) show ?thesis
    by (cases r) (auto simp: nichkawde_step_def split: option.splits)
qed

lemma nichkawde_loop_outcome:
  assumes "\<forall>row\<in>set X_full. length row = nat E_max" and "taus \<noteq> []"
    and "\<forall>t\<in>set taus. t < nat E_max"
  shows "nichkawde_loop X_full E_max nmin taus n = Inl EmbeddingFailure
       \<or> (\<exists>r. nichkawde_loop X_full E_max nmin taus n = Inr r)"
  using assms
proof (induction X_full E_max nmin taus n rule: nichkawde_loop.induct)
  case (1 X_full E_max nmin taus n)
  show ?case
  proof (cases "int (last taus) < E_max - 1")
    case False
    with "1.prems"(2) show ?thesis
      by (simp add: nichkawde_loop.simps [of X_full E_max nmin taus n])
  next
    case True
    from nichkawde_step_outcome [OF "1.prems"(1,3), of nmin]
    show ?thesis
    proof
      assume "nichkawde_step X_full E_max nmin taus = Inl EmbeddingFailure"
      with True "1.prems"(2) show ?thesis
        by (simp add: nichkawde_loop.simps [of X_full E_max nmin taus n])
    next
      assume "\<exists>t. nichkawde_step X_full E_max nmin taus = Inr t"
      then obtain t where step: "nichkawde_step X_full E_max nmin taus = Inr t" by blast
      from nichkawde_step_range [OF step] have "t < nat E_max" by linarith
      with "1.prems" have "\<forall>u\<in>set (taus @ [t]). u < nat E_max" by simp
      from "1.IH" [OF "1.prems"(2) True step "1.prems"(1) _ this]
      have "nichkawde_loop X_full E_max nmin (taus @ [t]) (Suc n) = Inl EmbeddingFailure
          \<or> (\<exists>r. nichkawde_loop X_full E_max nmin (taus @ [t]) (Suc n) = Inr r)"
        by simp
      with True "1.prems"(2) step show ?thesis
        by (simp add: nichkawde_loop.simps [of X_full E_max nmin taus n])
    qed
  qed
qed


text \<open>
  A run on the series \<open>0, 1, 2\<close> with \<open>E_max = 2\<close> and \<open>neighbor_offset_min = 1\<close>: one
  iteration, which appends the lag 1.
\<close>

lemma run_full: "make_full_embedding [Fin 0, Fin 1, Fin 2] 2 1 True
                 = Inr [[Fin 0, NaN], [Fin 1, Fin 0], [Fin 2, Fin 1]]"
  by (simp add: make_full_embedding_def make_partial_embedding_def lag_column_def
      assign_slice_def py_take_def from_columns_def upt_rec)

lemma run_neighbors: "step_neighbors [[Fin 0, NaN], [Fin 1, Fin 0], [Fin 2, Fin 1]] 1 [0]
                 = Inr ([1, 0, 1], [Fin 1, Fin 1, Fin 1])"
  by (simp add: step_neighbors_def select_columns_def masked_distance_def euclidean_distance_def
      squared_euclidean_distance_def row_sqdist_def fsum_def fsub_def zeros_to_inf_def
      theiler_mask_def mask_offset_def assign_diagonal_def find_neighbors_def neighbors_row_def
      column_def argpartition_def index_list_def sort_less_def upt_rec)

lemma run_step: "nichkawde_step [[Fin 0, NaN], [Fin 1, Fin 0], [Fin 2, Fin 1]] 2 1 [0] = Inr 1"
  by (simp add: nichkawde_step_def run_neighbors geo_mean_deriv_def candidate_derivs_def
      column_def index_list_def fsub_def fmean_def fsum_def fgt_def upt_rec)

lemma run_loop: "nichkawde_loop [[Fin 0, NaN], [Fin 1, Fin 0], [Fin 2, Fin 1]] 2 1 [0] 0
                 = Inr ([0, 1], 1)"
  by (simp add: nichkawde_loop.simps run_step)

lemma run_embed: "nichkawde_embedding [Fin 0, Fin 1, Fin 2] 2 1 True
                 = Inr ([0, 1], [[Fin 0, NaN], [Fin 1, Fin 0], [Fin 2, Fin 1]])"
  by (simp add: nichkawde_embedding_def run_full run_loop select_columns_def)

text \<open>
  Claim C6. When the full matrix has been built and the loop does not end in the failure
  (could not calculate max derivative), the loop returns: no other error is raised in it.
  It returns after \<open>n\<close> iterations, having appended one lag in each, with
  \<open>n \<le> E_max - 1\<close>; the lags are strictly increasing from 0 and at most \<open>E_max - 1\<close>.
  Every iteration that appends a lag appends one above the last lag and at most
  \<open>E_max - 1\<close>. (The loop function is total: its termination is proved with the measure
  \<open>E_max - 1 - taus[-1]\<close>.)
\<close>

theorem nichkawde_loop_terminates:
  assumes "make_full_embedding x E_max 1 p = Inr X_full"
    and "nichkawde_loop X_full E_max nmin [0] 0 \<noteq> Inl EmbeddingFailure"
  shows "(\<exists>taus n. nichkawde_loop X_full E_max nmin [0] 0 = Inr (taus, n)
            \<and> length taus = Suc n \<and> int n \<le> E_max - 1
            \<and> sorted_wrt (<) taus \<and> hd taus = 0 \<and> (\<forall>t\<in>set taus. int t \<le> E_max - 1))
       \<and> (\<forall>chosen t. nichkawde_step X_full E_max nmin chosen = Inr t \<longrightarrow>
             last chosen < t \<and> int t \<le> E_max - 1)"
proof
  from make_full_embedding_shape [OF assms(1)]
  have E: "0 < E_max" and wf: "\<forall>row\<in>set X_full. length row = nat E_max" by simp_all
  have "\<forall>t\<in>set [0::nat]. t < nat E_max" using E by simp
  from nichkawde_loop_outcome [OF wf _ this, of nmin 0] assms(2)
  obtain taus n where r: "nichkawde_loop X_full E_max nmin [0] 0 = Inr (taus, n)" by auto
  from nichkawde_loop_from_zero [OF r E] r
  show "\<exists>taus n. nichkawde_loop X_full E_max nmin [0] 0 = Inr (taus, n)
            \<and> length taus = Suc n \<and> int n \<le> E_max - 1
            \<and> sorted_wrt (<) taus \<and> hd taus = 0 \<and> (\<forall>t\<in>set taus. int t \<le> E_max - 1)"
    by blast
next
  show "\<forall>chosen t. nichkawde_step X_full E_max nmin chosen = Inr t \<longrightarrow>
          last chosen < t \<and> int t \<le> E_max - 1"
    using nichkawde_step_range by fastforce
qed

theorem nichkawde_loop_terminates_witness:
  "make_full_embedding [Fin 0, Fin 1, Fin 2] 2 1 True
     = Inr [[Fin 0, NaN], [Fin 1, Fin 0], [Fin 2, Fin 1]]
 \<and> nichkawde_loop [[Fin 0, NaN], [Fin 1, Fin 0], [Fin 2, Fin 1]] 2 1 [0] 0 = Inr ([0, 1], 1)
 \<and> nichkawde_step [[Fin 0, NaN], [Fin 1, Fin 0], [Fin 2, Fin 1]] 2 1 [0] = Inr 1
 \<and> last [0::nat] < 1 \<and> int 1 \<le> 2 - 1"
proof -
  have h: "nichkawde_loop [[Fin 0, NaN], [Fin 1, Fin 0], [Fin 2, Fin 1]] 2 1 [0] 0
             \<noteq> Inl EmbeddingFailure"
    by (simp add: run_loop)
  show ?thesis
    using nichkawde_loop_terminates [OF run_full h] run_full run_loop run_step by simp
qed

text \<open>
  Claim C7. Whenever the call returns, the lags returned start at 0, are strictly
  increasing (natural numbers, so non-negative) and at most \<open>E_max - 1\<close>, and the matrix
  returned has the rows of the full matrix, restricted to the columns of the lags in the
  order in which they were chosen.
\<close>

theorem nichkawde_embedding_result:
  assumes "nichkawde_embedding x E_max nmin p = Inr (taus, X)"
  shows "taus \<noteq> [] \<and> hd taus = 0 \<and> sorted_wrt (<) taus \<and> (\<forall>t\<in>set taus. int t \<le> E_max - 1)
       \<and> (\<exists>X_full. make_full_embedding x E_max 1 p = Inr X_full \<and> length X = length X_full
            \<and> (\<forall>i<length X_full. length (X ! i) = length taus
                 \<and> (\<forall>j<length taus. taus ! j < length (X_full ! i)
                      \<and> X ! i ! j = X_full ! i ! (taus ! j))))"
proof -
  from assms obtain X_full n where
    full: "make_full_embedding x E_max 1 p = Inr X_full"
    and loop: "nichkawde_loop X_full E_max nmin [0] 0 = Inr (taus, n)"
    and sel: "select_columns X_full taus = Inr X"
    by (auto simp: nichkawde_embedding_def split: sum.splits)
  from make_full_embedding_shape [OF full] have E: "0 < E_max" by simp
  note inv = nichkawde_loop_from_zero [OF loop E]
  have ne: "taus \<noteq> []" using inv(1) by auto
  note s = select_columns_Inr [OF sel]
  have "length (X ! i) = length taus
          \<and> (\<forall>j<length taus. taus ! j < length (X_full ! i) \<and> X ! i ! j = X_full ! i ! (taus ! j))"
    if "i < length X_full" for i
    using that s(1,4) by simp
  with full s(2) ne inv show ?thesis by blast
qed

theorem nichkawde_embedding_result_witness:
  "nichkawde_embedding [Fin 0, Fin 1, Fin 2] 2 1 True
     = Inr ([0, 1], [[Fin 0, NaN], [Fin 1, Fin 0], [Fin 2, Fin 1]])
 \<and> hd [0::nat, 1] = 0 \<and> sorted_wrt (<) [0::nat, 1]
 \<and> make_full_embedding [Fin 0, Fin 1, Fin 2] 2 1 True
     = Inr [[Fin 0, NaN], [Fin 1, Fin 0], [Fin 2, Fin 1]]"
  using nichkawde_embedding_result [OF run_embed] run_embed run_full by simp

section \<open>Properties of the choice among the candidates\<close>

lemma fless_trans: "fless a b \<Longrightarrow> fless b c \<Longrightarrow> fless a c"
  by (cases a; cases b; cases c) simp_all

lemma not_fless_then:
  "\<not> fless m g \<Longrightarrow> fless m g' \<Longrightarrow> fless g g' \<or> isnan g"
  by (cases m; cases g; cases g') simp_all

lemma feq_not_fless: "feq a b \<Longrightarrow> \<not> fless a b \<and> \<not> isnan a"
  by (cases a; cases b) simp_all

lemma scan_lags_scores:
  "scan_lags X_full N0 DN0 ts best = Inr r \<Longrightarrow>
     \<forall>t\<in>set ts. \<exists>g. geo_mean_deriv X_full N0 DN0 t = Inr g"
proof (induction ts arbitrary: best)
  case Nil
  then show ?case by simp
next
  case (Cons t ts)
  then show ?case by (cases best) (auto split: sum.splits)
qed

lemma scan_lags_choice:
  assumes "\<forall>t\<in>set ts. geo_mean_deriv X_full N0 DN0 t = Inr (sc t)"
    and "scan_lags X_full N0 DN0 ts (m, mt) = Inr (g', r')"
  shows "(r' = mt \<and> g' = m \<and> (\<forall>t\<in>set ts. \<not> fgt (sc t) m))
       \<or> (\<exists>pre t' post. ts = pre @ t' # post \<and> r' = Some t' \<and> g' = sc t' \<and> fgt g' m
             \<and> (\<forall>t\<in>set pre. fless (sc t) g' \<or> isnan (sc t))
             \<and> (\<forall>t\<in>set post. \<not> fgt (sc t) g'))"
  using assms
proof (induction ts arbitrary: m mt)
  case Nil
  then show ?case by simp
next
  case (Cons t ts)
  have sc: "geo_mean_deriv X_full N0 DN0 t = Inr (sc t)"
    and rest: "\<forall>u\<in>set ts. geo_mean_deriv X_full N0 DN0 u = Inr (sc u)"
    using Cons.prems(1) by simp_all
  show ?case
  proof (cases "fgt (sc t) m")
    case True
    with Cons.prems(2) sc have "scan_lags X_full N0 DN0 ts (sc t, Some t) = Inr (g', r')"
      by simp
    from Cons.IH [OF rest this] show ?thesis
    proof (elim disjE conjE exE)
      assume "r' = Some t" "g' = sc t" "\<forall>u\<in>set ts. \<not> fgt (sc u) (sc t)"
      with True have "t # ts = [] @ t # ts \<and> r' = Some t \<and> g' = sc t \<and> fgt g' m
          \<and> (\<forall>u\<in>set []. fless (sc u) g' \<or> isnan (sc u)) \<and> (\<forall>u\<in>set ts. \<not> fgt (sc u) g')"
        by simp
      then show ?thesis by blast
    next
      fix pre t' post
      assume a: "ts = pre @ t' # post" "r' = Some t'" "g' = sc t'" "fgt g' (sc t)"
        "\<forall>u\<in>set pre. fless (sc u) g' \<or> isnan (sc u)" "\<forall>u\<in>set post. \<not> fgt (sc u) g'"
      have "fgt g' m" using a(4) True fless_trans by (auto simp: fgt_def)
      moreover have "\<forall>u\<in>set (t # pre). fless (sc u) g' \<or> isnan (sc u)"
        using a(4,5) by (simp add: fgt_def)
      ultimately have "t # ts = (t # pre) @ t' # post \<and> r' = Some t' \<and> g' = sc t' \<and> fgt g' m
          \<and> (\<forall>u\<in>set (t # pre). fless (sc u) g' \<or> isnan (sc u))
          \<and> (\<forall>u\<in>set post. \<not> fgt (sc u) g')"
        using a by simp
      then show ?thesis by blast
    qed
  next
    case False
    with Cons.prems(2) sc have "scan_lags X_full N0 DN0 ts (m, mt) = Inr (g', r')"
      by simp
    from Cons.IH [OF rest this] show ?thesis
    proof (elim disjE conjE exE)
      assume "r' = mt" "g' = m" "\<forall>u\<in>set ts. \<not> fgt (sc u) m"
      with False show ?thesis by simp
    next
      fix pre t' post
      assume a: "ts = pre @ t' # post" "r' = Some t'" "g' = sc t'" "fgt g' m"
        "\<forall>u\<in>set pre. fless (sc u) g' \<or> isnan (sc u)" "\<forall>u\<in>set post. \<not> fgt (sc u) g'"
      have "fless (sc t) g' \<or> isnan (sc t)"
        using False a(4) not_fless_then by (auto simp: fgt_def)
      then have "t # ts = (t # pre) @ t' # post \<and> r' = Some t' \<and> g' = sc t' \<and> fgt g' m
          \<and> (\<forall>u\<in>set (t # pre). fless (sc u) g' \<or> isnan (sc u))
          \<and> (\<forall>u\<in>set post. \<not> fgt (sc u) g')"
        using a by simp
      then show ?thesis by blast
    qed
  qed
qed

text \<open>The candidates are listed in ascending order, so "before" is "smaller".\<close>

lemma upt_split_order:
  assumes "[a..<b] = pre @ m # post"
  shows "\<forall>t\<in>set pre. t < m" and "\<forall>t\<in>set post. m < t"
    and "set [a..<b] = set pre \<union> {m} \<union> set post"
proof -
  have "sorted_wrt (<) (pre @ m # post)"
    using assms sorted_wrt_upt by metis
  then show "\<forall>t\<in>set pre. t < m" and "\<forall>t\<in>set post. m < t"
    by (auto simp: sorted_wrt_append)
  show "set [a..<b] = set pre \<union> {m} \<union> set post"
    unfolding assms by auto
qed

lemma nichkawde_step_choice:
  assumes "step_neighbors X_full nmin taus = Inr (N0, DN0)"
    and "\<forall>t\<in>set [last taus + 1..<nat E_max]. geo_mean_deriv X_full N0 DN0 t = Inr (sc t)"
  shows "(nichkawde_step X_full E_max nmin taus = Inl EmbeddingFailure
            \<and> (\<forall>t\<in>set [last taus + 1..<nat E_max]. \<not> fgt (sc t) (Fin 0)))
       \<or> (\<exists>m\<in>set [last taus + 1..<nat E_max].
             nichkawde_step X_full E_max nmin taus = Inr m \<and> fgt (sc m) (Fin 0)
             \<and> (\<forall>t\<in>set [last taus + 1..<nat E_max]. \<not> fgt (sc t) (sc m))
             \<and> (\<forall>t\<in>set [last taus + 1..<nat E_max]. t < m \<longrightarrow> fless (sc t) (sc m) \<or> isnan (sc t)))"
proof -
  define ts where "ts = [last taus + 1..<nat E_max]"
  have "\<forall>t\<in>set ts. \<exists>g. geo_mean_deriv X_full N0 DN0 t = Inr g"
    using assms(2) by (simp add: ts_def)
  from scan_lags_ok [OF this] obtain g' r' where
    scan: "scan_lags X_full N0 DN0 ts (Fin 0, None) = Inr (g', r')"
    by (metis surj_pair)
  have step: "nichkawde_step X_full E_max nmin taus =
                (case r' of None \<Rightarrow> Inl EmbeddingFailure | Some t \<Rightarrow> Inr t)"
    using assms(1) scan by (simp add: nichkawde_step_def ts_def split: option.splits)
  have sc: "\<forall>t\<in>set ts. geo_mean_deriv X_full N0 DN0 t = Inr (sc t)"
    using assms(2) by (simp add: ts_def)
  from scan_lags_choice [OF sc scan] show ?thesis
  proof (elim disjE conjE exE)
    assume "r' = None" "\<forall>t\<in>set ts. \<not> fgt (sc t) (Fin 0)"
    with step show ?thesis by (simp add: ts_def)
  next
    fix pre m post
    assume a: "ts = pre @ m # post" "r' = Some m" "g' = sc m" "fgt g' (Fin 0)"
      "\<forall>t\<in>set pre. fless (sc t) g' \<or> isnan (sc t)" "\<forall>t\<in>set post. \<not> fgt (sc t) g'"
    note ord = upt_split_order [OF a(1) [unfolded ts_def]]
    have mem: "m \<in> set ts" using a(1) by simp
    have pre: "fless (sc t) (sc m) \<or> isnan (sc t)" if "t \<in> set ts" "t < m" for t
    proof -
      have "t \<in> set pre \<union> {m} \<union> set post"
        using that(1) ord(3) unfolding ts_def by blast
      with that(2) ord(2) have "t \<in> set pre" by auto
      with a(3,5) show ?thesis by blast
    qed
    have "\<not> fgt (sc t) (sc m)" if "t \<in> set ts" for t
    proof -
      have "t \<in> set pre \<union> {m} \<union> set post"
        using that ord(3) unfolding ts_def by blast
      then consider "t \<in> set pre" | "t = m" | "t \<in> set post"
        by blast
      then show ?thesis
      proof cases
        case 1
        with a(3,5) have "fless (sc t) (sc m) \<or> isnan (sc t)" by blast
        then show ?thesis by (cases "sc t"; cases "sc m") (simp_all add: fgt_def)
      next
        case 2
        then show ?thesis by (cases "sc m") (simp_all add: fgt_def)
      next
        case 3
        with a(3,6) show ?thesis by blast
      qed
    qed
    then have post: "\<forall>t\<in>set ts. \<not> fgt (sc t) (sc m)" by blast
    have res: "nichkawde_step X_full E_max nmin taus = Inr m" using step a(2) by simp
    have pos: "fgt (sc m) (Fin 0)" using a(3,4) by simp
    have "\<exists>m\<in>set ts.
             nichkawde_step X_full E_max nmin taus = Inr m \<and> fgt (sc m) (Fin 0)
             \<and> (\<forall>t\<in>set ts. \<not> fgt (sc t) (sc m))
             \<and> (\<forall>t\<in>set ts. t < m \<longrightarrow> fless (sc t) (sc m) \<or> isnan (sc t))"
      using mem res pos post pre by blast
    then show ?thesis unfolding ts_def by (rule disjI2)
  qed
qed

lemma nichkawde_step_first_max:
  assumes "step_neighbors X_full nmin taus = Inr (N0, DN0)"
    and "nichkawde_step X_full E_max nmin taus = Inr m"
    and "t \<in> set [last taus + 1..<nat E_max]"
    and "geo_mean_deriv X_full N0 DN0 m = Inr gm"
    and "geo_mean_deriv X_full N0 DN0 t = Inr gt"
    and "feq gt gm"
  shows "m \<le> t"
proof (rule ccontr)
  assume "\<not> m \<le> t"
  then have lt: "t < m" by simp
  from assms(1,2) obtain r where
    "scan_lags X_full N0 DN0 [last taus + 1..<nat E_max] (Fin 0, None) = Inr r"
    by (auto simp: nichkawde_step_def split: sum.splits)
  from scan_lags_scores [OF this]
  have ex: "\<forall>u\<in>set [last taus + 1..<nat E_max]. \<exists>g. geo_mean_deriv X_full N0 DN0 u = Inr g" .
  define sc where "sc u = (case geo_mean_deriv X_full N0 DN0 u of Inr g \<Rightarrow> g | Inl e \<Rightarrow> NaN)" for u
  have sc: "\<forall>u\<in>set [last taus + 1..<nat E_max]. geo_mean_deriv X_full N0 DN0 u = Inr (sc u)"
    using ex by (auto simp: sc_def)
  have gm: "sc m = gm" and gt: "sc t = gt" using assms(4,5) by (simp_all add: sc_def)
  from nichkawde_step_choice [OF assms(1) sc] assms(2,3) lt
  have "fless (sc t) (sc m) \<or> isnan (sc t)" by auto
  with feq_not_fless [OF assms(6)] gm gt show False by simp
qed


lemma reached_lags:
  assumes "reached X_full E_max nmin taus n"
  shows "taus \<noteq> []" and "0 < E_max \<Longrightarrow> \<forall>t\<in>set taus. t < nat E_max"
proof -
  show "taus \<noteq> []" using assms by (induction rule: reached.induct) simp_all
  show "\<forall>t\<in>set taus. t < nat E_max" if "0 < E_max"
    using assms that
  proof (induction rule: reached.induct)
    case start
    then show ?case by simp
  next
    case (iterate taus n t)
    from nichkawde_step_range [OF iterate.hyps(3)] have "t < nat E_max" by linarith
    with iterate show ?case by simp
  qed
qed

lemma reached_loop:
  assumes "reached X_full E_max nmin taus n"
  shows "nichkawde_loop X_full E_max nmin taus n = nichkawde_loop X_full E_max nmin [0] 0"
  using assms
proof (induction rule: reached.induct)
  case start
  then show ?case by simp
next
  case (iterate taus n t)
  from reached_lags(1) [OF iterate.hyps(1)] have "taus \<noteq> []" .
  with iterate.hyps(2,3)
  have "nichkawde_loop X_full E_max nmin taus n =
          nichkawde_loop X_full E_max nmin (taus @ [t]) (Suc n)"
    by (simp add: nichkawde_loop.simps [of X_full E_max nmin taus n])
  with iterate.IH show ?case by simp
qed

lemma reached_unique:
  assumes "reached X_full E_max nmin taus n" and "reached X_full E_max nmin taus' n"
  shows "taus' = taus"
  using assms
proof (induction arbitrary: taus' rule: reached.induct)
  case start
  from start show ?case by (cases rule: reached.cases) simp_all
next
  case (iterate taus n t)
  from iterate.prems obtain taus2 t2 where
    "taus' = taus2 @ [t2]" "reached X_full E_max nmin taus2 n"
    "nichkawde_step X_full E_max nmin taus2 = Inr t2"
    by (cases rule: reached.cases) simp_all
  with iterate.IH [of taus2] iterate.hyps(3) show ?case by simp
qed

section \<open>Properties of an iteration\<close>

text \<open>
  Two more runs, both with \<open>neighbor_offset_min = 1\<close>. On the constant series \<open>1, 1, 1\<close>
  with \<open>E_max = 2\<close> every distance is zero, no derivative is kept and the iteration
  fails. On the series \<open>0, 1, 2, 3\<close> with \<open>E_max = 3\<close> the candidates 1 and 2 both score 1
  in the first iteration.
\<close>

lemma const_full: "make_full_embedding (map Fin [1, 1, 1]) 2 1 True
                 = Inr [[Fin 1, NaN], [Fin 1, Fin 1], [Fin 1, Fin 1]]"
  by (simp add: make_full_embedding_def make_partial_embedding_def lag_column_def
      assign_slice_def py_take_def from_columns_def upt_rec)

lemma const_neighbors: "step_neighbors [[Fin 1, NaN], [Fin 1, Fin 1], [Fin 1, Fin 1]] 1 [0]
                 = Inr ([1, 0, 0], [PInf, PInf, PInf])"
  by (simp add: step_neighbors_def select_columns_def masked_distance_def euclidean_distance_def
      squared_euclidean_distance_def row_sqdist_def fsum_def fsub_def zeros_to_inf_def
      theiler_mask_def mask_offset_def assign_diagonal_def find_neighbors_def neighbors_row_def
      column_def argpartition_def index_list_def sort_less_def upt_rec)

lemma const_derivs:
  "candidate_derivs [[Fin 1, NaN], [Fin 1, Fin 1], [Fin 1, Fin 1]] [1, 0, 0] [PInf, PInf, PInf] 1
     = Inr []"
  by (simp add: candidate_derivs_def column_def index_list_def fsub_def)

lemma const_step:
  "nichkawde_step [[Fin 1, NaN], [Fin 1, Fin 1], [Fin 1, Fin 1]] 2 1 [0] = Inl EmbeddingFailure"
  using const_derivs
  by (simp add: nichkawde_step_def const_neighbors geo_mean_deriv_def
      fmean_def fsum_def fgt_def upt_rec)

lemma tie_neighbors:
  "step_neighbors [[Fin 0, NaN, NaN], [Fin 1, Fin 0, NaN], [Fin 2, Fin 1, Fin 0],
                   [Fin 3, Fin 2, Fin 1]] 1 [0]
     = Inr ([1, 0, 1, 2], [Fin 1, Fin 1, Fin 1, Fin 1])"
  by (simp add: step_neighbors_def select_columns_def masked_distance_def euclidean_distance_def
      squared_euclidean_distance_def row_sqdist_def fsum_def fsub_def zeros_to_inf_def
      theiler_mask_def mask_offset_def assign_diagonal_def find_neighbors_def neighbors_row_def
      column_def argpartition_def index_list_def sort_less_def upt_rec)

lemma tie_score_1:
  "geo_mean_deriv [[Fin 0, NaN, NaN], [Fin 1, Fin 0, NaN], [Fin 2, Fin 1, Fin 0],
                   [Fin 3, Fin 2, Fin 1]] [1, 0, 1, 2] [Fin 1, Fin 1, Fin 1, Fin 1] 1
     = Inr (Fin 1)"
  by (simp add: geo_mean_deriv_def candidate_derivs_def column_def index_list_def fsub_def
      fmean_def fsum_def)

lemma tie_score_2:
  "geo_mean_deriv [[Fin 0, NaN, NaN], [Fin 1, Fin 0, NaN], [Fin 2, Fin 1, Fin 0],
                   [Fin 3, Fin 2, Fin 1]] [1, 0, 1, 2] [Fin 1, Fin 1, Fin 1, Fin 1] 2
     = Inr (Fin 1)"
  by (simp add: geo_mean_deriv_def candidate_derivs_def column_def index_list_def fsub_def
      fmean_def fsum_def)

lemma tie_step:
  "nichkawde_step [[Fin 0, NaN, NaN], [Fin 1, Fin 0, NaN], [Fin 2, Fin 1, Fin 0],
                   [Fin 3, Fin 2, Fin 1]] 3 1 [0] = Inr 1"
  using tie_score_1 tie_score_2
  by (simp add: nichkawde_step_def tie_neighbors fgt_def upt_rec numeral_2_eq_2)

text \<open>
  A run on the series \<open>\<infinity>, 0, 1, 2\<close> with \<open>E_max = 2\<close>: the only candidate, the lag 1,
  scores \<open>+\<infinity>\<close>, and the iteration appends it.
\<close>

lemma inf_full:
  "make_full_embedding [PInf, Fin 0, Fin 1, Fin 2] 2 1 True
     = Inr [[PInf, NaN], [Fin 0, PInf], [Fin 1, Fin 0], [Fin 2, Fin 1]]"
  by (simp add: make_full_embedding_def make_partial_embedding_def lag_column_def
      assign_slice_def py_take_def from_columns_def upt_rec)

lemma inf_neighbors:
  "step_neighbors [[PInf, NaN], [Fin 0, PInf], [Fin 1, Fin 0], [Fin 2, Fin 1]] 1 [0]
     = Inr ([1, 2, 1, 2], [PInf, Fin 1, Fin 1, Fin 1])"
  by (simp add: step_neighbors_def select_columns_def masked_distance_def euclidean_distance_def
      squared_euclidean_distance_def row_sqdist_def fsum_def fsub_def zeros_to_inf_def
      theiler_mask_def mask_offset_def assign_diagonal_def find_neighbors_def neighbors_row_def
      column_def argpartition_def index_list_def sort_less_def upt_rec)

lemma inf_derivs:
  "candidate_derivs [[PInf, NaN], [Fin 0, PInf], [Fin 1, Fin 0], [Fin 2, Fin 1]]
       [1, 2, 1, 2] [PInf, Fin 1, Fin 1, Fin 1] 1 = Inr [PInf, PInf, Fin 1]"
  by (simp add: candidate_derivs_def column_def index_list_def fsub_def)

lemma inf_score:
  "geo_mean_deriv [[PInf, NaN], [Fin 0, PInf], [Fin 1, Fin 0], [Fin 2, Fin 1]]
       [1, 2, 1, 2] [PInf, Fin 1, Fin 1, Fin 1] 1 = Inr PInf"
  using inf_derivs by (simp add: geo_mean_deriv_def fmean_def fsum_def)

lemma inf_step:
  "nichkawde_step [[PInf, NaN], [Fin 0, PInf], [Fin 1, Fin 0], [Fin 2, Fin 1]] 2 1 [0] = Inr 1"
  using inf_score by (simp add: nichkawde_step_def inf_neighbors fgt_def upt_rec)

lemma inf_embed:
  "nichkawde_embedding [PInf, Fin 0, Fin 1, Fin 2] 2 1 True
     = Inr ([0, 1], [[PInf, NaN], [Fin 0, PInf], [Fin 1, Fin 0], [Fin 2, Fin 1]])"
  by (simp add: nichkawde_embedding_def inf_full nichkawde_loop.simps inf_step select_columns_def)

text \<open>
  Claim C3, as amended. In an iteration (a state the loop has reached in which the last
  lag is below \<open>E_max - 1\<close>) the neighbours and the score of every candidate are computed
  without an error. The iteration fails if and only if no candidate has a score greater
  than zero: the score of a candidate with no kept derivative is NaN and is never
  greater, and a score of \<open>+\<infinity>\<close> is. The failure is the result of the loop and of the
  whole call: no lag set is returned. Otherwise the iteration appends a candidate \<open>m\<close>
  with a score greater than zero such that no candidate scores higher and every
  candidate before \<open>m\<close> scores strictly lower (or NaN). The statement does not depend on how
  a score is computed from the derivatives. The counterexample is the run above: the
  only candidate has no finite score, and the call returns the lags \<open>0, 1\<close>. (In IEEE
  doubles a series of finite numbers reaches the same state by overflow, as
  \<open>1e308, 0, -1e308, 1\<close> does; the exact arithmetic of this model does not show that.)
\<close>

theorem nichkawde_step_raises:
  assumes "make_full_embedding x E_max 1 p = Inr X_full"
    and "reached X_full E_max nmin taus n"
    and "int (last taus) < E_max - 1"
  shows "\<exists>N0 DN0 ds sc.
      step_neighbors X_full nmin taus = Inr (N0, DN0)
    \<and> (\<forall>t\<in>set [last taus + 1..<nat E_max].
          candidate_derivs X_full N0 DN0 t = Inr (ds t)
        \<and> geo_mean_deriv X_full N0 DN0 t = Inr (sc t)
        \<and> (ds t = [] \<longrightarrow> isnan (sc t)))
    \<and> (nichkawde_step X_full E_max nmin taus = Inl EmbeddingFailure
          \<longleftrightarrow> (\<forall>t\<in>set [last taus + 1..<nat E_max]. \<not> fgt (sc t) (Fin 0)))
    \<and> (nichkawde_step X_full E_max nmin taus = Inl EmbeddingFailure \<longrightarrow>
          nichkawde_loop X_full E_max nmin taus n = Inl EmbeddingFailure
        \<and> nichkawde_loop X_full E_max nmin [0] 0 = Inl EmbeddingFailure
        \<and> nichkawde_embedding x E_max nmin p = Inl EmbeddingFailure)
    \<and> (nichkawde_step X_full E_max nmin taus \<noteq> Inl EmbeddingFailure \<longrightarrow>
          (\<exists>m\<in>set [last taus + 1..<nat E_max].
              nichkawde_step X_full E_max nmin taus = Inr m
            \<and> reached X_full E_max nmin (taus @ [m]) (Suc n)
            \<and> fgt (sc m) (Fin 0)
            \<and> (\<forall>t\<in>set [last taus + 1..<nat E_max]. \<not> fgt (sc t) (sc m))
            \<and> (\<forall>t\<in>set [last taus + 1..<nat E_max].
                  t < m \<longrightarrow> fless (sc t) (sc m) \<or> isnan (sc t))))"
proof -
  define ts where "ts = [last taus + 1..<nat E_max]"
  from make_full_embedding_shape [OF assms(1)]
  have E: "0 < E_max" and wf: "\<forall>row\<in>set X_full. length row = nat E_max" by simp_all
  note ne = reached_lags(1) [OF assms(2)]
  note lags = reached_lags(2) [OF assms(2) E]
  from step_neighbors_ok [OF wf lags, of nmin] obtain N0 DN0 where
    sn: "step_neighbors X_full nmin taus = Inr (N0, DN0)"
    and len: "length N0 = length X_full"
    and nb: "\<forall>i<length X_full. N0 ! i < length X_full"
    by blast
  have N0: "\<forall>j\<in>set N0. j < length X_full"
    using nb len by (auto simp: in_set_conv_nth)
  define ds where
    "ds t = (case candidate_derivs X_full N0 DN0 t of Inr l \<Rightarrow> l | Inl e \<Rightarrow> [])" for t
  define sc where "sc t = fexp (fmean (map flog (ds t)))" for t
  have cd: "candidate_derivs X_full N0 DN0 t = Inr (ds t)" if "t \<in> set ts" for t
    using candidate_derivs_ok [OF wf _ N0, of t DN0] that by (simp add: ds_def ts_def)
  have gm: "geo_mean_deriv X_full N0 DN0 t = Inr (sc t)" if "t \<in> set ts" for t
    using cd [OF that] by (simp add: geo_mean_deriv_def sc_def)
  have empty: "ds t = [] \<longrightarrow> isnan (sc t)" for t
    by (simp add: sc_def fmean_def fsum_def)
  have sc_all: "\<forall>t\<in>set [last taus + 1..<nat E_max]. geo_mean_deriv X_full N0 DN0 t = Inr (sc t)"
    using gm by (simp add: ts_def)
  note choice = nichkawde_step_choice [OF sn sc_all, folded ts_def]
  have iff: "nichkawde_step X_full E_max nmin taus = Inl EmbeddingFailure
               \<longleftrightarrow> (\<forall>t\<in>set ts. \<not> fgt (sc t) (Fin 0))"
    using choice by auto
  have fatal: "nichkawde_loop X_full E_max nmin taus n = Inl EmbeddingFailure
             \<and> nichkawde_loop X_full E_max nmin [0] 0 = Inl EmbeddingFailure
             \<and> nichkawde_embedding x E_max nmin p = Inl EmbeddingFailure"
    if fail: "nichkawde_step X_full E_max nmin taus = Inl EmbeddingFailure"
  proof -
    have 1: "nichkawde_loop X_full E_max nmin taus n = Inl EmbeddingFailure"
      using fail ne assms(3) by (simp add: nichkawde_loop.simps [of X_full E_max nmin taus n])
    then have 2: "nichkawde_loop X_full E_max nmin [0] 0 = Inl EmbeddingFailure"
      using reached_loop [OF assms(2)] by simp
    then have "nichkawde_embedding x E_max nmin p = Inl EmbeddingFailure"
      using assms(1) by (simp add: nichkawde_embedding_def)
    with 1 2 show ?thesis by simp
  qed
  have chosen: "\<exists>m\<in>set ts.
              nichkawde_step X_full E_max nmin taus = Inr m
            \<and> reached X_full E_max nmin (taus @ [m]) (Suc n)
            \<and> fgt (sc m) (Fin 0)
            \<and> (\<forall>t\<in>set ts. \<not> fgt (sc t) (sc m))
            \<and> (\<forall>t\<in>set ts. t < m \<longrightarrow> fless (sc t) (sc m) \<or> isnan (sc t))"
    if ok: "nichkawde_step X_full E_max nmin taus \<noteq> Inl EmbeddingFailure"
  proof -
    from choice ok obtain m where m: "m \<in> set ts"
      "nichkawde_step X_full E_max nmin taus = Inr m" "fgt (sc m) (Fin 0)"
      "\<forall>t\<in>set ts. \<not> fgt (sc t) (sc m)"
      "\<forall>t\<in>set ts. t < m \<longrightarrow> fless (sc t) (sc m) \<or> isnan (sc t)"
      by blast
    have "reached X_full E_max nmin (taus @ [m]) (Suc n)"
      using assms(2,3) m(2) by (rule reached.iterate)
    with m show ?thesis by blast
  qed
  show ?thesis
    unfolding ts_def [symmetric]
    using sn cd gm empty iff fatal chosen
    by (intro exI [of _ N0] exI [of _ DN0] exI [of _ ds] exI [of _ sc]) blast
qed

theorem nichkawde_step_raises_witness:
  "nichkawde_step [[Fin 1, NaN], [Fin 1, Fin 1], [Fin 1, Fin 1]] 2 1 [0] = Inl EmbeddingFailure
 \<and> candidate_derivs [[Fin 1, NaN], [Fin 1, Fin 1], [Fin 1, Fin 1]] [1, 0, 0] [PInf, PInf, PInf] 1
     = Inr []
 \<and> nichkawde_embedding (map Fin [1, 1, 1]) 2 1 True = Inl EmbeddingFailure"
proof -
  have c: "int (last [0::nat]) < 2 - 1" by simp
  from nichkawde_step_raises [OF const_full reached.start c, of 1] const_step
  have "nichkawde_embedding (map Fin [1, 1, 1]) 2 1 True = Inl EmbeddingFailure" by auto
  with const_step const_derivs show ?thesis by simp
qed

theorem nichkawde_step_infinite_score_counterexample:
  "geo_mean_deriv [[PInf, NaN], [Fin 0, PInf], [Fin 1, Fin 0], [Fin 2, Fin 1]]
       [1, 2, 1, 2] [PInf, Fin 1, Fin 1, Fin 1] 1 = Inr PInf
 \<and> \<not> isfinite PInf
 \<and> [last [0] + 1..<nat 2] = [1::nat]
 \<and> step_neighbors [[PInf, NaN], [Fin 0, PInf], [Fin 1, Fin 0], [Fin 2, Fin 1]] 1 [0]
     = Inr ([1, 2, 1, 2], [PInf, Fin 1, Fin 1, Fin 1])
 \<and> nichkawde_step [[PInf, NaN], [Fin 0, PInf], [Fin 1, Fin 0], [Fin 2, Fin 1]] 2 1 [0] = Inr 1
 \<and> nichkawde_embedding [PInf, Fin 0, Fin 1, Fin 2] 2 1 True
     = Inr ([0, 1], [[PInf, NaN], [Fin 0, PInf], [Fin 1, Fin 0], [Fin 2, Fin 1]])"
  using inf_score inf_neighbors inf_step inf_embed by (simp add: upt_rec)

text \<open>
  Claim C10. The model is a function of \<open>(x, E_max, neighbor_offset_min,
  preserve_indices)\<close>: the source reads nothing else (the module \<^verbatim>\<open>random\<close> is imported
  and not used). Any two runs of the loop on the same full matrix hold the same lags
  after the same number of iterations. When the lag \<open>m\<close> an iteration appends and a
  candidate \<open>t\<close> have equal scores, \<open>m \<le> t\<close>: among equal scores the smallest lag, which is
  the first in the order of the loop, is the one appended.
\<close>

theorem nichkawde_deterministic:
  assumes "reached X_full E_max nmin taus n" and "reached X_full E_max nmin taus' n"
  shows "taus' = taus
       \<and> (\<forall>N0 DN0 m t gm gt.
             step_neighbors X_full nmin taus = Inr (N0, DN0) \<longrightarrow>
             nichkawde_step X_full E_max nmin taus = Inr m \<longrightarrow>
             t \<in> set [last taus + 1..<nat E_max] \<longrightarrow>
             geo_mean_deriv X_full N0 DN0 m = Inr gm \<longrightarrow>
             geo_mean_deriv X_full N0 DN0 t = Inr gt \<longrightarrow>
             feq gt gm \<longrightarrow> m \<le> t)"
  using reached_unique [OF assms] nichkawde_step_first_max by blast

theorem nichkawde_deterministic_witness:
  "nichkawde_step [[Fin 0, NaN, NaN], [Fin 1, Fin 0, NaN], [Fin 2, Fin 1, Fin 0],
                   [Fin 3, Fin 2, Fin 1]] 3 1 [0] = Inr 1
 \<and> geo_mean_deriv [[Fin 0, NaN, NaN], [Fin 1, Fin 0, NaN], [Fin 2, Fin 1, Fin 0],
                   [Fin 3, Fin 2, Fin 1]] [1, 0, 1, 2] [Fin 1, Fin 1, Fin 1, Fin 1] 1
     = Inr (Fin 1)
 \<and> geo_mean_deriv [[Fin 0, NaN, NaN], [Fin 1, Fin 0, NaN], [Fin 2, Fin 1, Fin 0],
                   [Fin 3, Fin 2, Fin 1]] [1, 0, 1, 2] [Fin 1, Fin 1, Fin 1, Fin 1] 2
     = Inr (Fin 1)
 \<and> (1::nat) \<le> 2"
proof -
  have cand: "(2::nat) \<in> set [last [0] + 1..<nat 3]" by (simp add: upt_rec)
  have tie: "feq (Fin 1) (Fin 1)" by simp
  from nichkawde_deterministic [OF reached.start reached.start]
    tie_neighbors tie_step cand tie_score_1 tie_score_2 tie
  have "(1::nat) \<le> 2" by blast
  with tie_step tie_score_1 tie_score_2 show ?thesis by simp
qed

end
